theory Spec2Isabelle
  imports Main "HOL-Library.Word"
begin

section \<open>Network/NetworkManager.js: sockets, packet registry and stream reassembly\<close>

text \<open>
  A shallow embedding of roBrowser's network manager.  The module keeps its state in
  module-level variables (\<open>_sockets\<close>, \<open>_socket\<close>, \<open>_save_buffer\<close>, \<open>Packets.list\<close>,
  \<open>read.callback\<close>); here every operation takes the part of that state it touches and
  returns it updated.  Calls into collaborators (the transport sockets, the timers,
  \<open>PacketCrypt\<close>, the handlers bound to packets) are recorded, in order, in a list of events.
\<close>

subsection \<open>Bytes and the binary reader\<close>

type_synonym byte = "8 word"

text \<open>
  Modelled from the spec: \<open>Utils/BinaryReader\<close> is not among the sources.  The spec describes a
  cursor over a byte sequence with a position, and a little-endian wire format with 16-bit
  identifiers and lengths.  \<open>tell\<close> is the position, \<open>flength\<close> the number of bytes,
  \<open>readUShort\<close> reads two bytes little-endian and moves the position by two, \<open>seek\<close> (with
  \<open>SEEK_SET\<close>) sets the position.  A read that would leave the buffer yields \<open>None\<close>.
\<close>

record BinaryReader =
  buffer :: "byte list"
  offset :: nat

definition BinaryReader_new :: "byte list \<Rightarrow> BinaryReader" where
  "BinaryReader_new b = \<lparr>buffer = b, offset = 0\<rparr>"

definition tell :: "BinaryReader \<Rightarrow> nat" where
  "tell fp = offset fp"

definition flength :: "BinaryReader \<Rightarrow> nat" where
  "flength fp = length (buffer fp)"

definition readUShort :: "BinaryReader \<Rightarrow> (nat \<times> BinaryReader) option" where
  "readUShort fp =
     (if offset fp + 2 \<le> length (buffer fp)
      then Some (unat (buffer fp ! offset fp) + 256 * unat (buffer fp ! (offset fp + 1)),
                 fp\<lparr>offset := offset fp + 2\<rparr>)
      else None)"

definition seek_set :: "BinaryReader \<Rightarrow> nat \<Rightarrow> BinaryReader" where
  "seek_set fp pos = fp\<lparr>offset := pos\<rparr>"

text \<open>\<open>new Uint8Array(buffer, offset, len)\<close>: the \<open>len\<close> bytes of \<open>buffer\<close> from \<open>offset\<close>.\<close>

definition Uint8Array_view :: "byte list \<Rightarrow> nat \<Rightarrow> nat \<Rightarrow> byte list" where
  "Uint8Array_view b off len = take len (drop off b)"

subsection \<open>Packet definitions and the registry\<close>

text \<open>
  The value of the \<open>id\<close> parameter of \<open>registerPacket\<close>.  Its documentation declares a number;
  the module's own start-up loop passes \<open>Object.keys(PacketRegister)[i]\<close>, which in JavaScript
  is the decimal string of the key.  Both index the same slot of the array \<open>Packets.list\<close>,
  but they differ under \<open>!\<close>: the number 0 is falsy, every non-empty string is truthy.
\<close>

datatype packet_id = NumId nat | KeyId nat

fun index_of :: "packet_id \<Rightarrow> nat" where
  "index_of (NumId n) = n"
| "index_of (KeyId n) = n"

fun truthy_id :: "packet_id option \<Rightarrow> bool" where
  "truthy_id None = False"
| "truthy_id (Some (NumId n)) = (n \<noteq> 0)"
| "truthy_id (Some (KeyId n)) = True"

text \<open>
  A packet structure: the constructor function of \<open>PacketStructure\<close> with its properties
  \<open>name\<close> and \<open>size\<close>.  The constructor itself is not among the sources and is a parameter:
  called as \<open>new struct(fp, end)\<close> on the buffer with the cursor at a position, it yields the
  typed value and leaves the cursor somewhere.  A struct is one JavaScript object, which
  \<open>registerPacket\<close> changes (\<open>struct.id = id\<close>) and of which the registry keeps a reference:
  \<open>s_ref\<close> is the object's reference, and its \<open>id\<close> property is kept, by reference, in the
  registry state below, so that every holder of the object sees the value assigned last.
\<close>

type_synonym 'd parser = "byte list \<Rightarrow> nat \<Rightarrow> nat \<Rightarrow> 'd \<times> nat"

record 'd struct =
  s_ref :: nat
  s_name :: string
  s_parse :: "'d parser"
  s_size :: int

text \<open>The protocol version range \<open>PACKETVER\<close>, which guess hooks narrow.\<close>

record packetver =
  pv_min :: int
  pv_max :: int

text \<open>\<open>function Packets(name, struct, size)\<close>; handlers are identified by a value of type \<open>'h\<close>.\<close>

record ('d, 'h) Packets =
  p_name :: string
  p_struct :: "'d struct"
  p_size :: int
  p_callback :: "'h option"
  p_guess :: "(nat \<Rightarrow> packetver \<Rightarrow> packetver) option"

definition Packets_new :: "string \<Rightarrow> 'd struct \<Rightarrow> int \<Rightarrow> ('d, 'h) Packets" where
  "Packets_new name struct sz =
     \<lparr>p_name = name, p_struct = struct, p_size = sz, p_callback = None, p_guess = None\<rparr>"

type_synonym ('d, 'h) packets_list = "nat \<rightharpoonup> ('d, 'h) Packets"

datatype error = PacketNotYetRegister string | TypeError

text \<open>
  The registry state: the \<open>id\<close> property of every struct object (\<open>None\<close> is \<open>undefined\<close>), and
  the array \<open>Packets.list\<close>.  At first no struct has an \<open>id\<close> and the array is empty.
\<close>

record ('d, 'h) registry =
  struct_id :: "nat \<Rightarrow> packet_id option"
  Packets_list :: "('d, 'h) packets_list"

definition registry_init :: "('d, 'h) registry" where
  "registry_init = \<lparr>struct_id = (\<lambda>ref. None), Packets_list = Map.empty\<rparr>"

text \<open>\<open>registerPacket(id, struct)\<close>, lines 161 to 168: no check, no throw.\<close>

definition registerPacket :: "packet_id \<Rightarrow> 'd struct \<Rightarrow> ('d, 'h) registry \<Rightarrow> ('d, 'h) registry" where
  "registerPacket pid struct r =
     r\<lparr>struct_id := (struct_id r)(s_ref struct := Some pid),
       Packets_list :=
         (Packets_list r)(index_of pid \<mapsto> Packets_new (s_name struct) struct (s_size struct))\<rparr>"

text \<open>
  The start-up loop, lines 447 to 453, the only caller of \<open>registerPacket\<close>, which the module
  does not export.  \<open>./PacketRegister\<close> is not among the sources and is a parameter: the list of
  its entries in the order of \<open>Object.keys\<close>, each with the identifier whose decimal string is
  the key.
\<close>

fun register_packets :: "(nat \<times> 'd struct) list \<Rightarrow> ('d, 'h) registry \<Rightarrow> ('d, 'h) registry" where
  "register_packets [] r = r"
| "register_packets ((key, struct) # entries) r =
     register_packets entries (registerPacket (KeyId key) struct r)"

text \<open>
  \<open>hookPacket(packet, callback)\<close> throws when \<open>packet.id\<close> is falsy; assigning a property of the
  \<open>undefined\<close> read from an empty slot is JavaScript's \<open>TypeError\<close>.  (An absent \<open>id\<close> is
  falsy, so the first branch of the \<open>case\<close> below is never taken.)  \<open>guessPacketVer\<close> is the
  same code with the \<open>guess\<close> field.
\<close>

definition hookPacket ::
  "'d struct \<Rightarrow> 'h \<Rightarrow> ('d, 'h) registry \<Rightarrow> error + ('d, 'h) registry"
where
  "hookPacket packet callback r =
     (if \<not> truthy_id (struct_id r (s_ref packet))
      then Inl (PacketNotYetRegister (s_name packet))
      else case struct_id r (s_ref packet) of
        None \<Rightarrow> Inl TypeError
      | Some pid \<Rightarrow>
          (case Packets_list r (index_of pid) of
             None \<Rightarrow> Inl TypeError
           | Some p \<Rightarrow>
               Inr (r\<lparr>Packets_list :=
                        (Packets_list r)(index_of pid \<mapsto> p\<lparr>p_callback := Some callback\<rparr>)\<rparr>)))"

definition guessPacketVer ::
  "'d struct \<Rightarrow> (nat \<Rightarrow> packetver \<Rightarrow> packetver) \<Rightarrow> ('d, 'h) registry
     \<Rightarrow> error + ('d, 'h) registry"
where
  "guessPacketVer packet callback r =
     (if \<not> truthy_id (struct_id r (s_ref packet))
      then Inl (PacketNotYetRegister (s_name packet))
      else case struct_id r (s_ref packet) of
        None \<Rightarrow> Inl TypeError
      | Some pid \<Rightarrow>
          (case Packets_list r (index_of pid) of
             None \<Rightarrow> Inl TypeError
           | Some p \<Rightarrow>
               Inr (r\<lparr>Packets_list :=
                        (Packets_list r)(index_of pid \<mapsto> p\<lparr>p_guess := Some callback\<rparr>)\<rparr>)))"

text \<open>
  The registry states the module can be in: the one start-up leaves, and those that calls of
  the exported \<open>hookPacket\<close> and \<open>guessPacketVer\<close> make of it.
\<close>

inductive registry_reaches ::
  "(nat \<times> 'd struct) list \<Rightarrow> ('d, 'h) registry \<Rightarrow> bool"
  for PacketRegister :: "(nat \<times> 'd struct) list"
where
  startup: "registry_reaches PacketRegister (register_packets PacketRegister registry_init)"
| hooked: "registry_reaches PacketRegister r \<Longrightarrow> hookPacket packet callback r = Inr r'
            \<Longrightarrow> registry_reaches PacketRegister r'"
| guessed: "registry_reaches PacketRegister r \<Longrightarrow> guessPacketVer packet guess r = Inr r'
            \<Longrightarrow> registry_reaches PacketRegister r'"

text \<open>
  The registration of the spec (section 4.1), to compare the code with: \<open>register(id,
  definition)\<close> fails with \<open>DuplicateIdentifier\<close> if the identifier is already bound, and
  leaves the registry as it is; otherwise it binds the identifier as the code does.
\<close>

datatype registry_error = DuplicateIdentifier

definition register_checked ::
  "nat \<Rightarrow> 'd struct \<Rightarrow> ('d, 'h) registry \<Rightarrow> registry_error + ('d, 'h) registry"
where
  "register_checked key struct r =
     (case Packets_list r key of
        Some bound \<Rightarrow> Inl DuplicateIdentifier
      | None \<Rightarrow> Inr (registerPacket (KeyId key) struct r))"


subsection \<open>Receiving: the reassembly loop\<close>

text \<open>
  What \<open>receive\<close> does to the outside, in order: a guess hook called with a packet id's
  observed length, the \<open>Recv\<close> line of the console with the typed value, a handler called with
  the typed value, the console error for an identifier that is not registered (with the number
  of bytes skipped), and the one-shot read hook.
\<close>

datatype ('d, 'h) event =
    GuessHook nat nat
  | ConsoleRecv 'd
  | Callback 'h 'd
  | ConsoleNotRegister nat nat
  | ReadHook

text \<open>
  The module state \<open>receive\<close> reads and writes: \<open>_save_buffer\<close> (\<open>None\<close> is \<open>null\<close>),
  \<open>read.callback\<close> (given the buffer and the cursor, it leaves the cursor somewhere),
  \<open>PACKETVER\<close>, and the events so far.
\<close>

record ('d, 'h) receiver =
  save_buffer :: "byte list option"
  read_callback :: "(byte list \<Rightarrow> nat \<Rightarrow> nat) option"
  PACKETVER :: packetver
  calls :: "('d, 'h) event list"

text \<open>
  How one pass through the body of the \<open>while\<close> loop ends: at its end with the cursor moved
  (\<open>Continue\<close>), at a \<open>return\<close>, at the \<open>break\<close>, or at a read outside the buffer.
\<close>

datatype 's outcome = Continue BinaryReader 's | Return 's | Break 's | Throw 's

text \<open>
  Lines 292 to 322: from the frame's length to the handler.  \<open>offset0\<close> is the cursor at the
  head of the loop, \<open>fp\<close> the reader after the header has been read.
\<close>

definition receive_frame ::
  "('d, 'h) Packets \<Rightarrow> nat \<Rightarrow> nat \<Rightarrow> nat \<Rightarrow> BinaryReader \<Rightarrow> ('d, 'h) receiver
     \<Rightarrow> ('d, 'h) receiver outcome"
where
  "receive_frame packet pid offset0 len fp st =
     (let offset = offset0 + len;
          st = (case p_guess packet of
                  None \<Rightarrow> st
                | Some guess \<Rightarrow>
                    if pv_min (PACKETVER st) \<noteq> pv_max (PACKETVER st)
                    then st\<lparr>PACKETVER := guess len (PACKETVER st),
                            calls := calls st @ [GuessHook pid len]\<rparr>
                    else st)
      in if offset > flength fp
         then let offset = tell fp - (if p_size packet < 0 then 4 else 2)
              in Return (st\<lparr>save_buffer :=
                   Some (Uint8Array_view (buffer fp) offset (flength fp - offset))\<rparr>)
         else let (data, pos) = s_parse (p_struct packet) (buffer fp) (tell fp) offset;
                  fp = seek_set fp pos;
                  st = st\<lparr>calls := calls st @ [ConsoleRecv data]\<rparr>;
                  fp = (if len \<noteq> 0 then seek_set fp offset else fp);
                  st = (case p_callback packet of
                          None \<Rightarrow> st
                        | Some callback \<Rightarrow> st\<lparr>calls := calls st @ [Callback callback data]\<rparr>)
              in Continue fp st)"

text \<open>Lines 258 to 290, then the rest of the body: one pass through the loop.\<close>

definition receive_body ::
  "('d, 'h) packets_list \<Rightarrow> BinaryReader \<Rightarrow> ('d, 'h) receiver \<Rightarrow> ('d, 'h) receiver outcome"
where
  "receive_body list fp st =
     (let offset = tell fp
      in if offset + 2 \<ge> flength fp
         then Return (st\<lparr>save_buffer :=
                Some (Uint8Array_view (buffer fp) offset (flength fp - offset))\<rparr>)
         else case readUShort fp of
           None \<Rightarrow> Throw st
         | Some (pid, fp) \<Rightarrow>
             (case list pid of
                None \<Rightarrow>
                  Break (st\<lparr>calls := calls st @ [ConsoleNotRegister pid (flength fp - tell fp)]\<rparr>)
              | Some packet \<Rightarrow>
                  if p_size packet < 0
                  then if offset + 4 \<ge> flength fp
                       then Return (st\<lparr>save_buffer :=
                              Some (Uint8Array_view (buffer fp) offset (flength fp - offset))\<rparr>)
                       else (case readUShort fp of
                               None \<Rightarrow> Throw st
                             | Some (len, fp) \<Rightarrow> receive_frame packet pid offset len fp st)
                  else receive_frame packet pid offset (nat (p_size packet)) fp st))"

text \<open>
  The \<open>while\<close> loop and the assignment after it.  A struct constructor may leave the cursor
  anywhere, so the loop need not end: \<open>None\<close> is a loop that never returns, \<open>Some (Inl e)\<close> an
  exception, \<open>Some (Inr st)\<close> the state at the return.
\<close>

datatype js_exception = RangeError

partial_function (option) receive_loop ::
  "('d, 'h) packets_list \<Rightarrow> BinaryReader \<Rightarrow> ('d, 'h) receiver
     \<Rightarrow> (js_exception + ('d, 'h) receiver) option"
where
  "receive_loop list fp st =
     (if tell fp < flength fp
      then (case receive_body list fp st of
              Continue fp' st' \<Rightarrow> receive_loop list fp' st'
            | Return st' \<Rightarrow> Some (Inr st')
            | Break st' \<Rightarrow> Some (Inr (st'\<lparr>save_buffer := None\<rparr>))
            | Throw st' \<Rightarrow> Some (Inl RangeError))
      else Some (Inr (st\<lparr>save_buffer := None\<rparr>)))"

declare receive_loop.simps [code]

text \<open>
  \<open>receive(buf)\<close>.  Lines 234 to 252 first: the buffer is the carry-over followed by the new
  bytes, the reader starts at 0, and an armed read hook is called once with the reader and
  disarmed.  Then the loop.
\<close>

definition receive_start ::
  "byte list \<Rightarrow> ('d, 'h) receiver \<Rightarrow> BinaryReader \<times> ('d, 'h) receiver"
where
  "receive_start buf st =
     (let buffer = (case save_buffer st of None \<Rightarrow> buf | Some saved \<Rightarrow> saved @ buf);
          fp = BinaryReader_new buffer
      in case read_callback st of
           None \<Rightarrow> (fp, st)
         | Some callback \<Rightarrow>
             (seek_set fp (callback buffer (tell fp)),
              st\<lparr>read_callback := None, calls := calls st @ [ReadHook]\<rparr>))"

definition receive ::
  "('d, 'h) packets_list \<Rightarrow> byte list \<Rightarrow> ('d, 'h) receiver
     \<Rightarrow> (js_exception + ('d, 'h) receiver) option"
where
  "receive list buf st = (case receive_start buf st of (fp, st) \<Rightarrow> receive_loop list fp st)"

text \<open>The transport delivering a sequence of chunks, one \<open>receive\<close> call each.\<close>

fun receive_chunks ::
  "('d, 'h) packets_list \<Rightarrow> byte list list \<Rightarrow> ('d, 'h) receiver
     \<Rightarrow> (js_exception + ('d, 'h) receiver) option"
where
  "receive_chunks list [] st = Some (Inr st)"
| "receive_chunks list (buf # bufs) st =
     (case receive list buf st of
        None \<Rightarrow> None
      | Some (Inl e) \<Rightarrow> Some (Inl e)
      | Some (Inr st') \<Rightarrow> receive_chunks list bufs st')"

text \<open>
  The configurations (reader, state) at the head of the \<open>while\<close> loop that a run passes
  through: \<open>loop_reaches list c c'\<close> when the loop started in \<open>c\<close> comes to its head in \<open>c'\<close>.
\<close>

inductive loop_reaches ::
  "('d, 'h) packets_list \<Rightarrow> BinaryReader \<times> ('d, 'h) receiver
     \<Rightarrow> BinaryReader \<times> ('d, 'h) receiver \<Rightarrow> bool"
  for list :: "('d, 'h) packets_list"
where
  here: "loop_reaches list c c"
| pass: "tell fp < flength fp \<Longrightarrow> receive_body list fp st = Continue fp' st'
          \<Longrightarrow> loop_reaches list (fp', st') c \<Longrightarrow> loop_reaches list (fp, st) c"

text \<open>No struct constructor of the registry moves the cursor backwards.\<close>

definition constructors_forward :: "('d, 'h) packets_list \<Rightarrow> bool" where
  "constructors_forward list \<longleftrightarrow>
     (\<forall>pid packet b pos e. list pid = Some packet
        \<longrightarrow> pos \<le> snd (s_parse (p_struct packet) b pos e))"

subsection \<open>The wire format of the spec\<close>

text \<open>
  The spec's framing (section 6), used to say what a stream of frames should deliver: a frame
  starts with its 16-bit identifier, little-endian; a frame of a fixed-size packet has the
  size of its definition; a frame of a variable-size packet carries its own total length in
  the next 16 bits.  \<open>frame_of\<close> gives the definition a well-formed frame belongs to.
\<close>

definition ushort_at :: "byte list \<Rightarrow> nat \<Rightarrow> nat" where
  "ushort_at b i = unat (b ! i) + 256 * unat (b ! (i + 1))"

definition header_size :: "('d, 'h) Packets \<Rightarrow> nat" where
  "header_size p = (if p_size p < 0 then 4 else 2)"

definition frame_of :: "('d, 'h) packets_list \<Rightarrow> byte list \<Rightarrow> ('d, 'h) Packets option" where
  "frame_of list f =
     (if length f < 2 then None
      else case list (ushort_at f 0) of
        None \<Rightarrow> None
      | Some p \<Rightarrow>
          if p_size p < 0
          then (if 4 \<le> length f \<and> ushort_at f 2 = length f then Some p else None)
          else (if nat (p_size p) = length f then Some p else None))"

text \<open>
  What a frame should deliver: its typed value, parsed from the frame alone, logged and handed
  to the handler if one is bound.
\<close>

definition frame_events :: "('d, 'h) packets_list \<Rightarrow> byte list \<Rightarrow> ('d, 'h) event list" where
  "frame_events list f =
     (case frame_of list f of
        None \<Rightarrow> []
      | Some p \<Rightarrow>
          (let d = fst (s_parse (p_struct p) f (header_size p) (length f))
           in ConsoleRecv d # (case p_callback p of None \<Rightarrow> [] | Some h \<Rightarrow> [Callback h d])))"

text \<open>The events of a run that deliver typed values.\<close>

fun is_delivery :: "('d, 'h) event \<Rightarrow> bool" where
  "is_delivery (ConsoleRecv d) = True"
| "is_delivery (Callback h d) = True"
| "is_delivery _ = False"

definition deliveries :: "('d, 'h) event list \<Rightarrow> ('d, 'h) event list" where
  "deliveries es = filter is_delivery es"

text \<open>
  Every struct constructor of the registry computes its value from the bytes between the
  cursor and the frame's end only.
\<close>

definition constructors_local :: "('d, 'h) packets_list \<Rightarrow> bool" where
  "constructors_local list \<longleftrightarrow>
     (\<forall>pid p b pos e b' pos' e'. list pid = Some p
        \<longrightarrow> take (e - pos) (drop pos b) = take (e' - pos') (drop pos' b')
        \<longrightarrow> fst (s_parse (p_struct p) b pos e) = fst (s_parse (p_struct p) b' pos' e'))"

text \<open>
  With \<open>m\<close> bytes in the buffer from the first byte of the frame \<open>f\<close>, the loop does not parse
  the frame; and: the frame is longer than its header.
\<close>

definition frame_held :: "('d, 'h) packets_list \<Rightarrow> byte list \<Rightarrow> nat \<Rightarrow> bool" where
  "frame_held list f m \<longleftrightarrow>
     m \<le> 2 \<or> (case frame_of list f of None \<Rightarrow> True | Some p \<Rightarrow> p_size p < 0 \<and> m \<le> 4) \<or> m < length f"

definition carries_payload :: "('d, 'h) packets_list \<Rightarrow> byte list \<Rightarrow> bool" where
  "carries_payload list f \<longleftrightarrow>
     (case frame_of list f of None \<Rightarrow> False | Some p \<Rightarrow> header_size p < length f)"

subsection \<open>Sockets, sending and closing\<close>

text \<open>
  A transport socket is a JavaScript object: a table from property names to values, where a
  property that was never assigned reads as \<open>undefined\<close> (here \<open>None\<close>).  \<open>connect\<close> assigns
  \<open>isZone\<close>, \<open>setPing\<close> assigns \<open>ping\<close> (the handle \<open>setInterval\<close> returned).  Sockets are
  compared by identity, so the module state refers to them by reference (a number) and
  \<open>objects\<close> holds what each reference points to.
\<close>

datatype jsval = JBool bool | JNum nat

type_synonym socket_obj = "string \<rightharpoonup> jsval"

fun truthy :: "jsval option \<Rightarrow> bool" where
  "truthy None = False"
| "truthy (Some (JBool b)) = b"
| "truthy (Some (JNum n)) = (n \<noteq> 0)"

datatype effect =
    SocketSend nat "byte list"
  | SocketClose nat
  | ClearInterval "jsval option"
  | CryptInit
  | CryptProcess "byte list"
  | CryptReset
  | ConsoleWarnDisconnect
  | ShowErrorBox

text \<open>
  Modelled from the spec: \<open>./PacketCrypt\<close> is not among the sources.  The spec gives it a state
  and three operations: \<open>init()\<close> arms the cipher, \<open>process(buffer)\<close> transforms the bytes in
  place and advances the state, \<open>reset()\<close> disarms it.  They are parameters here, over a state
  of any type \<open>'c\<close>.
\<close>

record 'c PacketCrypt =
  pc_init :: "'c \<Rightarrow> 'c"
  pc_process :: "'c \<Rightarrow> byte list \<Rightarrow> 'c \<times> byte list"
  pc_reset :: "'c \<Rightarrow> 'c"

record 'c network =
  sockets :: "nat list"
  socket :: "nat option"
  objects :: "nat \<Rightarrow> socket_obj"
  crypt :: 'c
  effects :: "effect list"

text \<open>\<open>Array.prototype.indexOf\<close> (\<open>-1\<close> when absent) and \<open>splice(idx, 1)\<close>.\<close>

fun indexOf :: "'a list \<Rightarrow> 'a \<Rightarrow> int" where
  "indexOf [] x = -1"
| "indexOf (y # ys) x =
     (if y = x then 0 else (let i = indexOf ys x in if i = -1 then -1 else i + 1))"

definition splice1 :: "'a list \<Rightarrow> int \<Rightarrow> 'a list" where
  "splice1 xs idx = take (nat idx) xs @ drop (nat idx + 1) xs"

text \<open>
  \<open>connect\<close>, up to the construction of the socket \<open>this\<close>, and its \<open>onComplete(success)\<close>
  (lines 92 to 120; the console line and the caller's callback are left out).
\<close>

definition connect_socket :: "nat \<Rightarrow> bool \<Rightarrow> 'c network \<Rightarrow> 'c network" where
  "connect_socket this isZone st = st\<lparr>objects := (objects st)(this := [''isZone'' \<mapsto> JBool isZone])\<rparr>"

definition onComplete :: "'c PacketCrypt \<Rightarrow> nat \<Rightarrow> bool \<Rightarrow> bool \<Rightarrow> 'c network \<Rightarrow> 'c network" where
  "onComplete pc this isZone success st =
     (if success
      then let st = (case socket st of
                       None \<Rightarrow> st
                     | Some cur \<Rightarrow>
                         if truthy (objects st cur ''ping'')
                         then st\<lparr>effects := effects st @ [ClearInterval (objects st cur ''ping'')]\<rparr>
                         else st);
               st = st\<lparr>socket := Some this, sockets := sockets st @ [this]\<rparr>
           in if isZone
              then st\<lparr>crypt := pc_init pc (crypt st), effects := effects st @ [CryptInit]\<rparr>
              else st
      else st)"

text \<open>\<open>send(buffer)\<close>, lines 148 to 152.\<close>

definition send :: "byte list \<Rightarrow> 'c network \<Rightarrow> 'c network" where
  "send buf st =
     (case socket st of
        None \<Rightarrow> st
      | Some cur \<Rightarrow> st\<lparr>effects := effects st @ [SocketSend cur buf]\<rparr>)"

text \<open>
  \<open>sendPacket(Packet)\<close>, lines 129 to 140; \<open>pkt\<close> is what \<open>Packet.build()\<close> returned, whose
  \<open>view\<close> and \<open>buffer\<close> are the same bytes.
\<close>

definition sendPacket :: "'c PacketCrypt \<Rightarrow> byte list \<Rightarrow> 'c network \<Rightarrow> 'c network" where
  "sendPacket pc pkt st =
     (case socket st of
        None \<Rightarrow> send pkt st
      | Some cur \<Rightarrow>
          if truthy (objects st cur ''isZone'')
          then let (c, view) = pc_process pc (crypt st) pkt
               in send view (st\<lparr>crypt := c, effects := effects st @ [CryptProcess pkt]\<rparr>)
          else send pkt st)"

text \<open>\<open>onClose()\<close> with the closed socket as \<open>this\<close>, lines 333 to 350.\<close>

definition onClose :: "nat \<Rightarrow> 'c network \<Rightarrow> 'c network" where
  "onClose this st =
     (let idx = indexOf (sockets st) this;
          st = (if socket st = Some this
                then let st = st\<lparr>effects := effects st @ [ConsoleWarnDisconnect]\<rparr>;
                         st = (if truthy (objects st this ''ping'')
                               then st\<lparr>effects := effects st @ [ClearInterval (objects st this ''ping'')]\<rparr>
                               else st)
                     in st\<lparr>effects := effects st @ [ShowErrorBox]\<rparr>
                else st)
      in if idx \<noteq> -1 then st\<lparr>sockets := splice1 (sockets st) idx\<rparr> else st)"

text \<open>\<open>close()\<close>, lines 357 to 379.  Line 364 reads the property \<open>izZone\<close>.\<close>

definition close :: "'c PacketCrypt \<Rightarrow> 'c network \<Rightarrow> 'c network" where
  "close pc st =
     (case socket st of
        None \<Rightarrow> st
      | Some cur \<Rightarrow>
          let st = st\<lparr>effects := effects st @ [SocketClose cur]\<rparr>;
              st = (if truthy (objects st cur ''izZone'')
                    then st\<lparr>crypt := pc_reset pc (crypt st), effects := effects st @ [CryptReset]\<rparr>
                    else st);
              st = (if truthy (objects st cur ''ping'')
                    then st\<lparr>effects := effects st @ [ClearInterval (objects st cur ''ping'')]\<rparr>
                    else st);
              idx = indexOf (sockets st) cur;
              st = st\<lparr>socket := None\<rparr>
          in if idx \<noteq> -1 then st\<lparr>sockets := splice1 (sockets st) idx\<rparr> else st)"

subsection \<open>Example packets, registry and states\<close>

text \<open>
  Two struct constructors: one returns the bytes from the cursor to the frame's end and leaves
  the cursor at the end, the other reads nothing at all.
\<close>

definition payload_struct :: "nat \<Rightarrow> string \<Rightarrow> int \<Rightarrow> (byte list) struct" where
  "payload_struct ref name sz =
     \<lparr>s_ref = ref, s_name = name, s_parse = (\<lambda>b pos e. (take (e - pos) (drop pos b), e)),
      s_size = sz\<rparr>"

definition idle_struct :: "nat \<Rightarrow> string \<Rightarrow> int \<Rightarrow> (byte list) struct" where
  "idle_struct ref name sz =
     \<lparr>s_ref = ref, s_name = name, s_parse = (\<lambda>b pos e. ([], pos)), s_size = sz\<rparr>"

text \<open>A controller hooking a packet, and \<open>PacketGuess\<close> binding a guess hook, after start-up.\<close>

definition hook ::
  "'d struct \<Rightarrow> 'h \<Rightarrow> ('d, 'h) registry \<Rightarrow> ('d, 'h) registry"
where
  "hook packet callback r = (case hookPacket packet callback r of Inl e \<Rightarrow> r | Inr r' \<Rightarrow> r')"

definition hook_guess ::
  "'d struct \<Rightarrow> (nat \<Rightarrow> packetver \<Rightarrow> packetver) \<Rightarrow> ('d, 'h) registry \<Rightarrow> ('d, 'h) registry"
where
  "hook_guess packet guess r =
     (case guessPacketVer packet guess r of Inl e \<Rightarrow> r | Inr r' \<Rightarrow> r')"

text \<open>
  A registry with the spec's two scenario packets (\<open>0x0064\<close> of fixed size 26, \<open>0x0abc\<close> of
  variable size) and an identifier-only packet \<open>0x007d\<close> of fixed size 2, all three hooked.
\<close>

definition packet_0064 :: "(byte list) struct" where
  "packet_0064 = payload_struct 1 ''PACKET_0064'' 26"

definition packet_007d :: "(byte list) struct" where
  "packet_007d = payload_struct 2 ''PACKET_007D'' 2"

definition packet_0abc :: "(byte list) struct" where
  "packet_0abc = payload_struct 3 ''PACKET_0ABC'' (-1)"

definition example_register :: "(nat \<times> (byte list) struct) list" where
  "example_register = [(0x64, packet_0064), (0x7d, packet_007d), (0xabc, packet_0abc)]"

definition example_registry :: "(byte list, string) registry" where
  "example_registry =
     hook packet_007d ''on7d''
       (hook packet_0abc ''onAbc''
          (hook packet_0064 ''on64'' (register_packets example_register registry_init)))"

definition example_list :: "(byte list, string) packets_list" where
  "example_list = Packets_list example_registry"

text \<open>A table with a packet under the identifier 0, and a struct that is in no table.\<close>

definition packet_0000 :: "(byte list) struct" where
  "packet_0000 = payload_struct 4 ''PACKET_0000'' 2"

definition packet_stray :: "(byte list) struct" where
  "packet_stray = payload_struct 5 ''PACKET_STRAY'' 6"

definition zero_register :: "(nat \<times> (byte list) struct) list" where
  "zero_register = [(0, packet_0000), (0x64, packet_0064)]"

definition fresh_receiver :: "(byte list, string) receiver" where
  "fresh_receiver =
     \<lparr>save_buffer = None, read_callback = None,
      PACKETVER = \<lparr>pv_min = 20120101, pv_max = 20130807\<rparr>, calls = []\<rparr>"

text \<open>What a run leaves behind that can be compared: the carry-over and the events.\<close>

definition observed ::
  "(js_exception + ('d, 'h) receiver) option
     \<Rightarrow> (js_exception + byte list option \<times> ('d, 'h) event list) option"
where
  "observed r = map_option (map_sum (\<lambda>e. e) (\<lambda>st. (save_buffer st, calls st))) r"

text \<open>A stand-in for \<open>PacketCrypt\<close>: the state is whether the cipher is armed.\<close>

definition example_crypt :: "bool PacketCrypt" where
  "example_crypt =
     \<lparr>pc_init = (\<lambda>c. True),
      pc_process = (\<lambda>c view. (c, if c then map (\<lambda>b. b + 1) view else view)),
      pc_reset = (\<lambda>c. False)\<rparr>"

definition idle_network :: "bool network" where
  "idle_network =
     \<lparr>sockets = [], socket = None, objects = (\<lambda>r. Map.empty), crypt = False, effects = []\<rparr>"

text \<open>Socket 1 connected to a zone server, socket 2 to a server that is not a zone server.\<close>

definition zone_network :: "bool network" where
  "zone_network = onComplete example_crypt 1 True True (connect_socket 1 True idle_network)"

definition char_network :: "bool network" where
  "char_network = onComplete example_crypt 2 False True (connect_socket 2 False idle_network)"

text \<open>Socket 1 after \<open>setPing\<close> armed a keepalive timer with handle 5 on it.\<close>

definition pinged_network :: "bool network" where
  "pinged_network =
     zone_network\<lparr>objects := (objects zone_network)(1 := (objects zone_network 1)(''ping'' \<mapsto> JNum 5))\<rparr>"

text \<open>A guess hook that settles the version when it sees a frame of 26 bytes.\<close>

definition narrow_on_26 :: "nat \<Rightarrow> packetver \<Rightarrow> packetver" where
  "narrow_on_26 len v = (if len = 26 then v\<lparr>pv_max := pv_min v\<rparr> else v)"

definition guessed_packet :: "(byte list, string) Packets" where
  "guessed_packet =
     \<lparr>p_name = ''PACKET_0064'', p_struct = packet_0064,
      p_size = 26, p_callback = Some ''on64'', p_guess = Some narrow_on_26\<rparr>"

definition guess_list :: "(byte list, string) packets_list" where
  "guess_list =
     Packets_list
       (hook_guess packet_0064 narrow_on_26
          (hook packet_0064 ''on64'' (register_packets [(0x64, packet_0064)] registry_init)))"

text \<open>The variable-size packet \<open>0x0abc\<close> with the constructor that reads nothing.\<close>

definition idle_0abc :: "(byte list) struct" where
  "idle_0abc = idle_struct 6 ''PACKET_0ABC'' (-1)"

definition idle_packet :: "(byte list, string) Packets" where
  "idle_packet =
     \<lparr>p_name = ''PACKET_0ABC'', p_struct = idle_0abc,
      p_size = -1, p_callback = Some ''onAbc'', p_guess = None\<rparr>"

definition idle_list :: "(byte list, string) packets_list" where
  "idle_list =
     Packets_list (hook idle_0abc ''onAbc'' (register_packets [(0xabc, idle_0abc)] registry_init))"

text \<open>
  Buffers: the first ten bytes of a 26-byte frame \<open>0x0064\<close> and the whole frame; the spec's frame \<open>0x0abc\<close> of
  declared length 8; a frame \<open>0x0abc\<close> of declared length 0 followed by four bytes; and a
  frame \<open>0x007d\<close> followed by the identifier \<open>0x9999\<close> and ten more bytes.
\<close>

definition short_0064 :: "byte list" where
  "short_0064 = [0x64, 0, 1, 2, 3, 4, 5, 6, 7, 8]"

definition whole_0064 :: "byte list" where
  "whole_0064 =
     [0x64, 0, 1, 2, 3, 4, 5, 6, 7, 8, 9, 10, 11, 12, 13, 14, 15, 16, 17, 18, 19, 20, 21, 22,
      23, 24]"

definition frame_0abc :: "byte list" where
  "frame_0abc = [0xbc, 0x0a, 8, 0, 1, 2, 3, 4]"

definition zero_0abc :: "byte list" where
  "zero_0abc = [0xbc, 0x0a, 0, 0, 1, 2, 3, 4]"

definition unknown_9999 :: "byte list" where
  "unknown_9999 = [0x7d, 0, 0x99, 0x99, 0x7d, 0, 0x7d, 0, 0x7d, 0, 0x7d, 0, 0x7d, 0]"

section \<open>Properties\<close>

subsection \<open>The registry\<close>

lemmas registry_defs =
  register_packets.simps registerPacket_def hookPacket_def guessPacketVer_def hook_def
  hook_guess_def Packets_new_def registry_init_def payload_struct_def idle_struct_def
  packet_0064_def packet_007d_def packet_0abc_def example_register_def example_registry_def
  idle_0abc_def

text \<open>
  One struct object under two keys: both slots hold the same object, whose \<open>id\<close> is the key
  assigned last, so a handler hooked through the struct goes to the slot of that key.
\<close>

lemma register_shared_struct:
  "struct_id (register_packets [(1, struct), (2, struct)] r) (s_ref struct) = Some (KeyId 2)
   \<and> map_option p_struct (Packets_list (register_packets [(1, struct), (2, struct)] r) 1)
       = Some struct
   \<and> map_option p_struct (Packets_list (register_packets [(1, struct), (2, struct)] r) 2)
       = Some struct"
  by (simp add: registerPacket_def Packets_new_def)

lemma register_checked_bound:
  "Packets_list r key = Some p \<Longrightarrow> register_checked key struct r = Inl DuplicateIdentifier"
  by (simp add: register_checked_def)








lemma register_packets_ids:
  "struct_id (register_packets entries r) ref = Some pid
     \<Longrightarrow> struct_id r ref = Some pid
         \<or> (\<exists>key struct. pid = KeyId key \<and> (key, struct) \<in> set entries \<and> s_ref struct = ref)"
proof (induction entries arbitrary: r)
  case Nil
  then show ?case by simp
next
  case (Cons entry entries)
  obtain key struct where entry: "entry = (key, struct)" by (cases entry)
  from Cons.prems Cons.IH [of "registerPacket (KeyId key) struct r"]
  show ?case
    by (auto simp: entry registerPacket_def split: if_splits)
qed

lemma register_packets_unregistered:
  "struct_id (register_packets entries r) ref = None
     \<longleftrightarrow> struct_id r ref = None \<and> ref \<notin> s_ref ` snd ` set entries"
proof (induction entries arbitrary: r)
  case Nil
  show ?case by simp
next
  case (Cons entry entries)
  obtain key struct where entry: "entry = (key, struct)" by (cases entry)
  show ?case
    by (auto simp: entry Cons.IH registerPacket_def)
qed

lemma register_packets_dom:
  "dom (Packets_list (register_packets entries r)) = dom (Packets_list r) \<union> fst ` set entries"
proof (induction entries arbitrary: r)
  case Nil
  show ?case by simp
next
  case (Cons entry entries)
  obtain key struct where entry: "entry = (key, struct)" by (cases entry)
  show ?case
    by (auto simp: entry Cons.IH registerPacket_def)
qed

lemma hookPacket_keeps:
  "hookPacket packet callback r = Inr r'
     \<Longrightarrow> struct_id r' = struct_id r \<and> dom (Packets_list r') = dom (Packets_list r)"
  by (auto simp: hookPacket_def split: if_splits option.splits)

lemma guessPacketVer_keeps:
  "guessPacketVer packet guess r = Inr r'
     \<Longrightarrow> struct_id r' = struct_id r \<and> dom (Packets_list r') = dom (Packets_list r)"
  by (auto simp: guessPacketVer_def split: if_splits option.splits)

lemma registry_reaches_ids:
  fixes r :: "('d, 'h) registry"
  assumes "registry_reaches PacketRegister r"
  shows "struct_id r
           = struct_id (register_packets PacketRegister (registry_init :: ('d, 'h) registry))
         \<and> dom (Packets_list r) = fst ` set PacketRegister"
  using assms
proof (induction rule: registry_reaches.induct)
  case startup
  show ?case by (simp add: register_packets_dom) (simp add: registry_init_def)
next
  case (hooked r packet callback r')
  with hookPacket_keeps [OF hooked.hyps(2)] show ?case by simp
next
  case (guessed r packet guess r')
  with guessPacketVer_keeps [OF guessed.hyps(2)] show ?case by simp
qed

lemma hookPacket_falsy_number:
  "struct_id r (s_ref packet) = Some (NumId 0)
     \<Longrightarrow> hookPacket packet callback r = Inl (PacketNotYetRegister (s_name packet))"
  by (simp add: hookPacket_def)

text \<open>
  Claim C9.  In every registry state the module can be in, for every struct: if the struct is
  an entry of \<open>PacketRegister\<close> (it has been registered, under whatever identifier, 0
  included), \<open>hookPacket\<close> succeeds and binds the handler to the definition under the struct's
  identifier, and \<open>guessPacketVer\<close> succeeds and binds the guess hook there; if it is not, both
  throw "not yet register".
\<close>

theorem hookPacket_registered:
  fixes r :: "('d, 'h) registry"
  assumes "registry_reaches PacketRegister r"
  shows "if s_ref packet \<in> s_ref ` snd ` set PacketRegister
         then \<exists>key struct p.
                (key, struct) \<in> set PacketRegister \<and> s_ref struct = s_ref packet
                \<and> Packets_list r key = Some p
                \<and> hookPacket packet callback r
                    = Inr (r\<lparr>Packets_list := (Packets_list r)(key \<mapsto> p\<lparr>p_callback := Some callback\<rparr>)\<rparr>)
                \<and> guessPacketVer packet guess r
                    = Inr (r\<lparr>Packets_list := (Packets_list r)(key \<mapsto> p\<lparr>p_guess := Some guess\<rparr>)\<rparr>)
         else hookPacket packet callback r = Inl (PacketNotYetRegister (s_name packet))
              \<and> guessPacketVer packet guess r = Inl (PacketNotYetRegister (s_name packet))"
proof -
  let ?r0 = "register_packets PacketRegister (registry_init :: ('d, 'h) registry)"
  from registry_reaches_ids [OF assms]
  have ids: "struct_id r = struct_id ?r0" and keys: "dom (Packets_list r) = fst ` set PacketRegister"
    by simp_all
  show ?thesis
  proof (cases "s_ref packet \<in> s_ref ` snd ` set PacketRegister")
    case False
    then have "struct_id ?r0 (s_ref packet) = None"
      by (simp add: register_packets_unregistered registry_init_def)
    with False ids show ?thesis
      by (simp add: hookPacket_def guessPacketVer_def)
  next
    case True
    then have "struct_id ?r0 (s_ref packet) \<noteq> None"
      by (simp add: register_packets_unregistered)
    then obtain pid where pid: "struct_id ?r0 (s_ref packet) = Some pid" by auto
    from register_packets_ids [OF pid]
    obtain key struct where key: "pid = KeyId key" "(key, struct) \<in> set PacketRegister"
      "s_ref struct = s_ref packet"
      by (auto simp: registry_init_def)
    from key(2) keys have "key \<in> dom (Packets_list r)" by force
    then obtain p where p: "Packets_list r key = Some p" by auto
    from True ids pid key p show ?thesis
      by (auto simp: hookPacket_def guessPacketVer_def)
  qed
qed

theorem hookPacket_registered_witness:
  "s_ref packet_0000 \<in> s_ref ` snd ` set zero_register
   \<and> (\<exists>r'. hookPacket packet_0000 ''on0''
              (register_packets zero_register (registry_init :: (byte list, string) registry))
            = Inr r'
          \<and> map_option p_callback (Packets_list r' 0) = Some (Some ''on0''))
   \<and> (\<exists>r'. guessPacketVer packet_0000 narrow_on_26
              (register_packets zero_register (registry_init :: (byte list, string) registry))
            = Inr r')
   \<and> s_ref packet_stray \<notin> s_ref ` snd ` set zero_register
   \<and> hookPacket packet_stray ''onStray''
         (register_packets zero_register (registry_init :: (byte list, string) registry))
       = Inl (PacketNotYetRegister ''PACKET_STRAY'')
   \<and> guessPacketVer packet_stray narrow_on_26
         (register_packets zero_register (registry_init :: (byte list, string) registry))
       = Inl (PacketNotYetRegister ''PACKET_STRAY'')"
proof -
  let ?r = "register_packets zero_register (registry_init :: (byte list, string) registry)"
  have reach: "registry_reaches zero_register ?r"
    by (rule registry_reaches.startup)
  have registered: "s_ref packet_0000 \<in> s_ref ` snd ` set zero_register"
    by (simp add: zero_register_def packet_0000_def packet_0064_def payload_struct_def)
  have stray: "s_ref packet_stray \<notin> s_ref ` snd ` set zero_register"
    by (simp add: zero_register_def packet_0000_def packet_0064_def packet_stray_def
        payload_struct_def)
  have name: "s_name packet_stray = ''PACKET_STRAY''"
    by (simp add: packet_stray_def payload_struct_def)
  have bound: "\<exists>r'. hookPacket packet_0000 ''on0'' ?r = Inr r'
                 \<and> map_option p_callback (Packets_list r' 0) = Some (Some ''on0'')"
    by (simp add: hookPacket_def zero_register_def packet_0000_def packet_0064_def
        payload_struct_def registerPacket_def registry_init_def Packets_new_def)
  from hookPacket_registered [OF reach, of packet_0000 "''on0''" narrow_on_26]
       hookPacket_registered [OF reach, of packet_stray "''onStray''" narrow_on_26]
       registered stray name bound
  show ?thesis by auto
qed


subsection \<open>Sockets\<close>

lemma indexOf_lower: "-1 \<le> indexOf xs x"
  by (induction xs) (auto simp: Let_def)

lemma indexOf_absent: "indexOf xs x = -1 \<longleftrightarrow> x \<notin> set xs"
proof (induction xs)
  case Nil
  show ?case by simp
next
  case (Cons y ys)
  have "indexOf ys x + 1 \<noteq> -1"
    using indexOf_lower [of ys x] by arith
  with Cons show ?case by (auto simp: Let_def)
qed

lemma indexOf_present: "x \<in> set xs \<Longrightarrow> 0 \<le> indexOf xs x"
  using indexOf_lower [of xs x] indexOf_absent [of xs x] by arith

lemma splice1_indexOf: "x \<in> set xs \<Longrightarrow> splice1 xs (indexOf xs x) = remove1 x xs"
proof (induction xs)
  case Nil
  then show ?case by simp
next
  case (Cons y ys)
  show ?case
  proof (cases "y = x")
    case True
    then show ?thesis by (simp add: splice1_def)
  next
    case False
    with Cons.prems have mem: "x \<in> set ys" by simp
    from indexOf_present [OF mem] have nat_suc: "nat (indexOf ys x + 1) = Suc (nat (indexOf ys x))"
      by arith
    from mem have "indexOf ys x \<noteq> -1" by (simp add: indexOf_absent)
    with False Cons.IH [OF mem] nat_suc show ?thesis
      by (simp add: splice1_def Let_def)
  qed
qed

lemma close_leaves_crypt:
  "socket st = Some cur \<Longrightarrow> objects st cur ''izZone'' = None \<Longrightarrow> crypt (close pc st) = crypt st"
  by (simp add: close_def Let_def)

text \<open>
  Claim C3 at its failing input: socket 1 is the active socket, is zone-flagged, has a
  keepalive timer, and the cipher is armed.  \<open>close()\<close> closes the socket, cancels the timer,
  clears the active reference and empties the tracked list, and never calls
  \<open>PacketCrypt.reset()\<close>: the cipher stays armed.
\<close>

theorem close_zone_no_reset:
  "socket pinged_network = Some 1
   \<and> truthy (objects pinged_network 1 ''isZone'')
   \<and> crypt pinged_network = True
   \<and> effects pinged_network = [CryptInit]
   \<and> effects (close example_crypt pinged_network)
       = [CryptInit, SocketClose 1, ClearInterval (Some (JNum 5))]
   \<and> CryptReset \<notin> set (effects (close example_crypt pinged_network))
   \<and> crypt (close example_crypt pinged_network) = True
   \<and> socket (close example_crypt pinged_network) = None
   \<and> sockets (close example_crypt pinged_network) = []"
  by (simp add: pinged_network_def zone_network_def idle_network_def connect_socket_def
      onComplete_def close_def example_crypt_def splice1_def Let_def)

text \<open>
  Claim C5, as the code has it.  With an active socket: \<open>sendPacket\<close> passes the payload through
  \<open>PacketCrypt.process\<close> exactly when the socket is zone-flagged and hands the result to the
  socket; \<open>send\<close> hands its bytes to the socket as they are and leaves the cipher alone, whether
  or not the socket is zone-flagged.
\<close>

theorem sendPacket_send_crypt:
  assumes "socket st = Some cur"
  shows "sendPacket pc pkt st =
           (if truthy (objects st cur ''isZone'')
            then st\<lparr>crypt := fst (pc_process pc (crypt st) pkt),
                    effects := effects st @
                      [CryptProcess pkt, SocketSend cur (snd (pc_process pc (crypt st) pkt))]\<rparr>
            else st\<lparr>effects := effects st @ [SocketSend cur pkt]\<rparr>)
         \<and> send buf st = st\<lparr>effects := effects st @ [SocketSend cur buf]\<rparr>"
  using assms by (simp add: sendPacket_def send_def split: prod.split)

theorem sendPacket_send_crypt_witness:
  "socket zone_network = Some 1
   \<and> truthy (objects zone_network 1 ''isZone'')
   \<and> effects (sendPacket example_crypt [0x7d, 0] zone_network)
       = [CryptInit, CryptProcess [0x7d, 0], SocketSend 1 [0x7e, 1]]
   \<and> effects (send [0x7d, 0] zone_network) = [CryptInit, SocketSend 1 [0x7d, 0]]
   \<and> socket char_network = Some 2
   \<and> \<not> truthy (objects char_network 2 ''isZone'')
   \<and> effects (sendPacket example_crypt [0x7d, 0] char_network) = [SocketSend 2 [0x7d, 0]]
   \<and> effects (send [0x7d, 0] char_network) = [SocketSend 2 [0x7d, 0]]"
proof -
  have active: "socket zone_network = Some 1"
    by (simp add: zone_network_def idle_network_def connect_socket_def onComplete_def Let_def)
  have zone: "truthy (objects zone_network 1 ''isZone'')"
    by (simp add: zone_network_def idle_network_def connect_socket_def onComplete_def Let_def)
  have state: "effects zone_network = [CryptInit]" "crypt zone_network = True"
    by (simp_all add: zone_network_def idle_network_def connect_socket_def onComplete_def
        example_crypt_def Let_def)
  have active': "socket char_network = Some 2"
    by (simp add: char_network_def idle_network_def connect_socket_def onComplete_def Let_def)
  have plain: "\<not> truthy (objects char_network 2 ''isZone'')"
    by (simp add: char_network_def idle_network_def connect_socket_def onComplete_def Let_def)
  have state': "effects char_network = []"
    by (simp add: char_network_def idle_network_def connect_socket_def onComplete_def Let_def)
  from sendPacket_send_crypt [OF active, of example_crypt "[0x7d, 0]" "[0x7d, 0]"]
       sendPacket_send_crypt [OF active', of example_crypt "[0x7d, 0]" "[0x7d, 0]"]
       zone state active plain state' active'
  show ?thesis by (simp add: example_crypt_def)
qed

text \<open>
  Claim C5 as stated fails for the raw send operation: on the zone-flagged socket 1, \<open>send\<close>
  forwards the payload unchanged and without a call of \<open>PacketCrypt.process\<close>, while the same
  payload sent with \<open>sendPacket\<close> reaches the socket transformed.
\<close>

theorem send_zone_counterexample:
  "truthy (objects zone_network 1 ''isZone'')
   \<and> socket zone_network = Some 1
   \<and> effects (send [0x7d, 0] zone_network) = [CryptInit, SocketSend 1 [0x7d, 0]]
   \<and> CryptProcess [0x7d, 0] \<notin> set (effects (send [0x7d, 0] zone_network))
   \<and> effects (sendPacket example_crypt [0x7d, 0] zone_network)
       = [CryptInit, CryptProcess [0x7d, 0], SocketSend 1 [0x7e, 1]]"
  by (simp add: zone_network_def idle_network_def connect_socket_def onComplete_def send_def
      sendPacket_def example_crypt_def Let_def)

text \<open>
  Claim C10.  When the socket reported closed is the active one, \<open>onClose\<close> cancels its keepalive
  timer (if it has one), takes it out of the tracked list, and leaves the active reference on
  it; a \<open>send\<close> after that hands its bytes to the closed socket, whereas \<open>send\<close> with no active
  socket does nothing.
\<close>

theorem onClose_keeps_active_socket:
  assumes "socket st = Some this"
  shows "socket (onClose this st) = Some this
         \<and> sockets (onClose this st) = remove1 this (sockets st)
         \<and> (truthy (objects st this ''ping'')
              \<longrightarrow> ClearInterval (objects st this ''ping'') \<in> set (effects (onClose this st)))
         \<and> effects (send buf (onClose this st))
              = effects (onClose this st) @ [SocketSend this buf]
         \<and> send buf (st\<lparr>socket := None\<rparr>) = st\<lparr>socket := None\<rparr>"
proof (cases "this \<in> set (sockets st)")
  case True
  then have "indexOf (sockets st) this \<noteq> -1" by (simp add: indexOf_absent)
  with assms splice1_indexOf [OF True] show ?thesis
    by (simp add: onClose_def send_def Let_def)
next
  case False
  then have "indexOf (sockets st) this = -1" by (simp add: indexOf_absent)
  with assms False show ?thesis
    by (simp add: onClose_def send_def Let_def remove1_idem)
qed

theorem onClose_keeps_active_socket_witness:
  "socket pinged_network = Some 1
   \<and> truthy (objects pinged_network 1 ''ping'')
   \<and> socket (onClose 1 pinged_network) = Some 1
   \<and> sockets pinged_network = [1]
   \<and> sockets (onClose 1 pinged_network) = []
   \<and> effects (send [0x7d, 0] (onClose 1 pinged_network))
        = [CryptInit, ConsoleWarnDisconnect, ClearInterval (Some (JNum 5)), ShowErrorBox,
           SocketSend 1 [0x7d, 0]]"
proof -
  have active: "socket pinged_network = Some 1"
    by (simp add: pinged_network_def zone_network_def idle_network_def connect_socket_def
        onComplete_def Let_def)
  have ping: "objects pinged_network 1 ''ping'' = Some (JNum 5)"
    by (simp add: pinged_network_def)
  have tracked: "sockets pinged_network = [1]"
    by (simp add: pinged_network_def zone_network_def idle_network_def connect_socket_def
        onComplete_def Let_def)
  have before: "effects pinged_network = [CryptInit]"
    by (simp add: pinged_network_def zone_network_def idle_network_def connect_socket_def
        onComplete_def Let_def)
  have after: "effects (onClose 1 pinged_network)
                 = [CryptInit, ConsoleWarnDisconnect, ClearInterval (Some (JNum 5)), ShowErrorBox]"
    using active ping tracked before by (simp add: onClose_def splice1_def Let_def)
  from onClose_keeps_active_socket [OF active, of "[0x7d, 0]"] active ping tracked after
  show ?thesis by simp
qed

subsection \<open>The reassembly loop\<close>

lemma readUShort_tell:
  "readUShort fp = Some (n, fp') \<Longrightarrow> fp' = fp\<lparr>offset := tell fp + 2\<rparr>"
  by (auto simp: readUShort_def tell_def split: if_splits)

text \<open>The two guards before the reads keep every read of the loop inside the buffer.\<close>

lemma receive_body_never_throws: "receive_body list fp st \<noteq> Throw st'"
  by (auto simp: receive_body_def receive_frame_def readUShort_def tell_def flength_def
      seek_set_def Let_def split: option.splits prod.splits if_splits)

lemma receive_body_calls:
  "receive_body list fp st = Continue fp' st' \<Longrightarrow> \<exists>es. calls st' = calls st @ es"
  by (auto simp: receive_body_def receive_frame_def Let_def
      split: option.splits prod.splits if_splits)

lemma loop_reaches_calls:
  "loop_reaches list c c' \<Longrightarrow> \<exists>es. calls (snd c') = calls (snd c) @ es"
proof (induction rule: loop_reaches.induct)
  case (here c)
  show ?case by simp
next
  case (pass fp st fp' st' c)
  from pass.hyps(2) obtain es where "calls st' = calls st @ es"
    by (auto dest: receive_body_calls)
  with pass.IH show ?case by auto
qed

lemma loop_reaches_result:
  "loop_reaches list c c'
     \<Longrightarrow> receive_loop list (fst c) (snd c) = receive_loop list (fst c') (snd c')"
proof (induction rule: loop_reaches.induct)
  case (here c)
  show ?case by simp
next
  case (pass fp st fp' st' c)
  then show ?case by (subst receive_loop.simps) simp
qed

text \<open>
  The loop returns whenever no struct constructor moves the cursor backwards: every pass then
  ends with the cursor further on.
\<close>

lemma receive_body_progress:
  assumes "constructors_forward list"
      and "receive_body list fp st = Continue fp' st'"
  shows "tell fp < tell fp' \<and> flength fp' = flength fp"
proof -
  from assms(1)
  have forward: "list pid = Some packet \<Longrightarrow> s_parse (p_struct packet) b pos e = (d, pos')
                   \<Longrightarrow> pos \<le> pos'" for pid packet b pos e d pos'
    unfolding constructors_forward_def by (metis snd_conv)
  from assms(2) show ?thesis
    by (auto simp: receive_body_def receive_frame_def readUShort_def tell_def flength_def
        seek_set_def Let_def split: option.splits prod.splits if_splits dest!: forward)
qed

lemma receive_loop_returns:
  assumes "constructors_forward list"
  shows "\<exists>st'. receive_loop list fp st = Some (Inr st')"
proof (induction "flength fp - tell fp" arbitrary: fp st rule: less_induct)
  case less
  show ?case
  proof (cases "tell fp < flength fp")
    case False
    then show ?thesis by (subst receive_loop.simps) simp
  next
    case True
    show ?thesis
    proof (cases "receive_body list fp st")
      case (Continue fp' st')
      from receive_body_progress [OF assms Continue] True
      have "flength fp' - tell fp' < flength fp - tell fp" by arith
      from less [OF this] obtain st'' where "receive_loop list fp' st' = Some (Inr st'')"
        by blast
      with True Continue show ?thesis by (subst receive_loop.simps) simp
    next
      case (Return st')
      with True show ?thesis by (subst receive_loop.simps) simp
    next
      case (Break st')
      with True show ?thesis by (subst receive_loop.simps) simp
    next
      case (Throw st')
      with receive_body_never_throws show ?thesis by blast
    qed
  qed
qed

text \<open>With two bytes left, or four bytes left of a variable-size frame, the body saves and returns.\<close>

lemma receive_body_two_left:
  "tell fp + 2 = flength fp
     \<Longrightarrow> receive_body list fp st = Return (st\<lparr>save_buffer := Some (drop (tell fp) (buffer fp))\<rparr>)"
  by (simp add: receive_body_def Uint8Array_view_def flength_def)

lemma receive_body_four_left:
  assumes "tell fp + 4 = flength fp"
      and "readUShort fp = Some (pid, fp1)"
      and "list pid = Some packet"
      and "p_size packet < 0"
  shows "receive_body list fp st = Return (st\<lparr>save_buffer := Some (drop (tell fp) (buffer fp))\<rparr>)"
proof -
  from assms(2) have fp1: "fp1 = fp\<lparr>offset := tell fp + 2\<rparr>" by (rule readUShort_tell)
  from assms show ?thesis
    by (simp add: receive_body_def fp1 Uint8Array_view_def flength_def tell_def)
qed

lemma guess_list_0064: "guess_list 0x64 = Some guessed_packet"
  by (simp add: guess_list_def guessed_packet_def registry_defs)

lemma idle_list_0abc: "idle_list 0xabc = Some idle_packet"
  by (simp add: idle_list_def idle_packet_def registry_defs)

lemma example_list_9999: "example_list 0x9999 = None"
  by (simp add: example_list_def registry_defs)

subsection \<open>Streams of frames cut into chunks\<close>

text \<open>
  Supporting development for claim C1: what the loop does on a buffer that begins, at the
  cursor, with well-formed frames, and what a sequence of \<open>receive\<close> calls does on a stream of
  well-formed frames cut into chunks at arbitrary places.
\<close>

lemma readUShort_at:
  "q + 2 \<le> length B \<Longrightarrow>
     readUShort \<lparr>buffer = B, offset = q\<rparr> = Some (ushort_at B q, \<lparr>buffer = B, offset = q + 2\<rparr>)"
  by (simp add: readUShort_def ushort_at_def)

lemma nth_of_prefix:
  assumes "drop q B = take m (f @ rest)" and "i < m" and "i < length f" and "m = length B - q"
  shows "B ! (q + i) = f ! i"
proof -
  from assms(2,4) have "q + i < length B" by arith
  then have "B ! (q + i) = drop q B ! i" by simp
  also have "\<dots> = take m (f @ rest) ! i" by (simp only: assms(1))
  also from assms(2) have "\<dots> = (f @ rest) ! i" by (rule nth_take)
  also from assms(3) have "\<dots> = f ! i" by (simp add: nth_append)
  finally show ?thesis .
qed

lemma ushort_of_prefix:
  assumes "drop q B = take m (f @ rest)" and "i + 2 \<le> m" and "i + 2 \<le> length f" and "m = length B - q"
  shows "ushort_at B (q + i) = ushort_at f i"
proof -
  have "B ! (q + i) = f ! i"
    using assms by (intro nth_of_prefix [OF assms(1)]) auto
  moreover have "B ! (q + (i + 1)) = f ! (i + 1)"
    using assms by (intro nth_of_prefix [OF assms(1)]) auto
  ultimately show ?thesis by (simp add: ushort_at_def add.assoc)
qed

lemma frame_of_Some:
  assumes "frame_of list f = Some p"
  shows "2 \<le> length f" and "list (ushort_at f 0) = Some p"
    and "header_size p \<le> length f"
    and "p_size p < 0 \<Longrightarrow> ushort_at f 2 = length f"
    and "\<not> p_size p < 0 \<Longrightarrow> nat (p_size p) = length f"
  using assms by (auto simp: frame_of_def header_size_def split: if_splits option.splits)


lemma frame_of_prefix:
  assumes "drop q B = take m (f @ rest)" and "length f \<le> m" and "m = length B - q"
  shows "take (length f) (drop q B) = f"
  using assms by simp

lemma payload_of_prefix:
  assumes "drop q B = take m (f @ rest)" and "length f \<le> m" and "m = length B - q" and "h \<le> length f"
  shows "take (q + length f - (q + h)) (drop (q + h) B) = take (length f - h) (drop h f)"
proof -
  have "take (length f - h) (drop (q + h) B) = drop h (take (length f) (drop q B))"
    by (simp add: drop_take add.commute)
  also have "\<dots> = drop h f" using assms(1-3) by simp
  finally show ?thesis by simp
qed

text \<open>One pass of the loop over a buffer whose bytes from the cursor begin a well-formed frame.\<close>

lemma receive_body_held:
  assumes "frame_of list f = Some p"
      and "drop q B = take (length B - q) (f @ rest)"
      and "q < length B"
      and "frame_held list f (length B - q)"
  shows "\<exists>st'. receive_body list \<lparr>buffer = B, offset = q\<rparr> st = Return st'
           \<and> save_buffer st' = Some (drop q B)
           \<and> deliveries (calls st') = deliveries (calls st)
           \<and> read_callback st' = read_callback st"
proof -
  let ?m = "length B - q"
  note fr = frame_of_Some [OF assms(1)]
  show ?thesis
  proof (cases "?m \<le> 2")
    case True
    then have "length B \<le> q + 2" by arith
    then show ?thesis
      by (simp add: receive_body_def tell_def flength_def Uint8Array_view_def)
  next
    case False
    then have two: "q + 2 \<le> length B" "\<not> length B \<le> q + 2" by arith+
    have ident: "ushort_at B q = ushort_at f 0"
      using ushort_of_prefix [OF assms(2), of 0] fr(1) False by simp
    show ?thesis
    proof (cases "p_size p < 0")
      case variable: True
      show ?thesis
      proof (cases "?m \<le> 4")
        case True
        then have "length B \<le> q + 4" by arith
        with two variable ident fr(2) show ?thesis
          by (simp add: receive_body_def readUShort_at tell_def flength_def Uint8Array_view_def)
      next
        case False
        then have four: "q + 4 \<le> length B" "\<not> length B \<le> q + 4" by arith+
        from fr(3) variable have "4 \<le> length f" by (simp add: header_size_def)
        then have len: "ushort_at B (q + 2) = length f"
          using ushort_of_prefix [OF assms(2), of 2] False fr(4) variable by simp
        from assms(4) False \<open>\<not> ?m \<le> 2\<close> have short: "length B < q + length f"
          by (auto simp: frame_held_def assms(1))
        from two four variable ident fr(2) len short show ?thesis
          by (auto simp: receive_body_def receive_frame_def readUShort_at tell_def flength_def
              Uint8Array_view_def Let_def deliveries_def add.assoc split: option.splits)
      qed
    next
      case fixed: False
      from assms(4) fixed \<open>\<not> ?m \<le> 2\<close> have short: "length B < q + length f"
        by (auto simp: frame_held_def assms(1))
      from two fixed ident fr(2) fr(5) short show ?thesis
        by (auto simp: receive_body_def receive_frame_def readUShort_at tell_def flength_def
            Uint8Array_view_def Let_def deliveries_def split: option.splits)
    qed
  qed
qed


lemma receive_body_frame:
  assumes "frame_of list f = Some p"
      and "constructors_local list"
      and "drop q B = take (length B - q) (f @ rest)"
      and "q < length B"
      and "\<not> frame_held list f (length B - q)"
  shows "\<exists>st'. receive_body list \<lparr>buffer = B, offset = q\<rparr> st
                  = Continue \<lparr>buffer = B, offset = q + length f\<rparr> st'
           \<and> save_buffer st' = save_buffer st
           \<and> deliveries (calls st') = deliveries (calls st) @ frame_events list f
           \<and> read_callback st' = read_callback st"
proof -
  let ?m = "length B - q"
  let ?h = "header_size p"
  note fr = frame_of_Some [OF assms(1)]
  from assms(5) have more: "\<not> ?m \<le> 2" and whole: "length f \<le> ?m"
    and var_more: "p_size p < 0 \<Longrightarrow> \<not> ?m \<le> 4"
    by (auto simp: frame_held_def assms(1))
  from more have two: "q + 2 \<le> length B" "\<not> length B \<le> q + 2" by arith+
  from whole assms(4) have inside: "\<not> length B < q + length f" by arith
  from fr(1) have nonzero: "length f \<noteq> 0" by auto
  have ident: "ushort_at B q = ushort_at f 0"
    using ushort_of_prefix [OF assms(3), of 0] fr(1) more by simp
  have loc: "fst (s_parse (p_struct p) B (q + ?h) (q + length f))
               = fst (s_parse (p_struct p) f ?h (length f))"
    using assms(2) fr(2) payload_of_prefix [OF assms(3) whole refl fr(3)]
    unfolding constructors_local_def by blast
  have events: "frame_events list f
                  = ConsoleRecv d # (case p_callback p of None \<Rightarrow> [] | Some h \<Rightarrow> [Callback h d])"
    if "d = fst (s_parse (p_struct p) f ?h (length f))" for d
    unfolding that by (simp add: frame_events_def assms(1) Let_def)
  show ?thesis
  proof (cases "p_size p < 0")
    case variable: True
    from var_more [OF variable] have four: "q + 4 \<le> length B" "\<not> length B \<le> q + 4" by arith+
    from fr(3) variable have "4 \<le> length f" by (simp add: header_size_def)
    then have len: "ushort_at B (q + 2) = length f"
      using ushort_of_prefix [OF assms(3), of 2] var_more [OF variable] fr(4) variable by simp
    from variable have h: "q + ?h = q + 2 + 2" by (simp add: header_size_def)
    obtain d pos where parse: "s_parse (p_struct p) B (q + 2 + 2) (q + length f) = (d, pos)"
      by (cases "s_parse (p_struct p) B (q + 2 + 2) (q + length f)")
    with loc [unfolded h] have "d = fst (s_parse (p_struct p) f ?h (length f))" by simp
    note ev = events [OF this]
    from two four variable ident fr(2) len inside nonzero parse show ?thesis
      by (auto simp: receive_body_def receive_frame_def readUShort_at tell_def flength_def
          seek_set_def Let_def deliveries_def ev split: option.splits)
  next
    case fixed: False
    from fixed have h: "q + ?h = q + 2" by (simp add: header_size_def)
    obtain d pos where parse: "s_parse (p_struct p) B (q + 2) (q + length f) = (d, pos)"
      by (cases "s_parse (p_struct p) B (q + 2) (q + length f)")
    with loc [unfolded h] have "d = fst (s_parse (p_struct p) f ?h (length f))" by simp
    note ev = events [OF this]
    from two fixed ident fr(2) fr(5) inside nonzero parse show ?thesis
      by (auto simp: receive_body_def receive_frame_def readUShort_at tell_def flength_def
          seek_set_def Let_def deliveries_def ev split: option.splits)
  qed
qed


lemma receive_loop_frames:
  assumes "\<forall>f \<in> set fs. frame_of list f \<noteq> None"
      and "constructors_local list"
      and "q \<le> length B"
      and "drop q B = take (length B - q) (concat fs)"
  shows "\<exists>st' j. receive_loop list \<lparr>buffer = B, offset = q\<rparr> st = Some (Inr st')
           \<and> j \<le> length fs
           \<and> deliveries (calls st')
               = deliveries (calls st) @ concat (map (frame_events list) (take j fs))
           \<and> read_callback st' = read_callback st
           \<and> q + length (concat (take j fs)) \<le> length B
           \<and> save_buffer st'
               = (if q + length (concat (take j fs)) = length B then None
                  else Some (drop (q + length (concat (take j fs))) B))
           \<and> (j < length fs
                \<longrightarrow> frame_held list (fs ! j) (length B - (q + length (concat (take j fs)))))"
  using assms
proof (induction fs arbitrary: q st)
  case Nil
  then have "q = length B" by simp
  then have "receive_loop list \<lparr>buffer = B, offset = q\<rparr> st = Some (Inr (st\<lparr>save_buffer := None\<rparr>))"
    by (subst receive_loop.simps) (simp add: tell_def flength_def)
  with \<open>q = length B\<close> show ?case by simp
next
  case (Cons f fs)
  show ?case
  proof (cases "q = length B")
    case True
    then have "receive_loop list \<lparr>buffer = B, offset = q\<rparr> st
                 = Some (Inr (st\<lparr>save_buffer := None\<rparr>))"
      by (subst receive_loop.simps) (simp add: tell_def flength_def)
    with True show ?thesis
      by (intro exI [of _ "st\<lparr>save_buffer := None\<rparr>"] exI [of _ 0]) (simp add: frame_held_def)
  next
    case False
    with Cons.prems(3) have inside: "q < length B" by simp
    then have head: "tell \<lparr>buffer = B, offset = q\<rparr> < flength \<lparr>buffer = B, offset = q\<rparr>"
      by (simp add: tell_def flength_def)
    from Cons.prems(1) obtain p where p: "frame_of list f = Some p" by auto
    from Cons.prems(4) have prefix: "drop q B = take (length B - q) (f @ concat fs)" by simp
    show ?thesis
    proof (cases "frame_held list f (length B - q)")
      case True
      from receive_body_held [OF p prefix inside True, of st]
      obtain st' where body: "receive_body list \<lparr>buffer = B, offset = q\<rparr> st = Return st'"
        and st': "save_buffer st' = Some (drop q B)" "deliveries (calls st') = deliveries (calls st)"
          "read_callback st' = read_callback st"
        by blast
      from head body have "receive_loop list \<lparr>buffer = B, offset = q\<rparr> st = Some (Inr st')"
        by (subst receive_loop.simps) simp
      with st' False True inside show ?thesis
        by (intro exI [of _ st'] exI [of _ 0]) simp
    next
      case not_held: False
      from receive_body_frame [OF p Cons.prems(2) prefix inside not_held, of st]
      obtain st1 where body: "receive_body list \<lparr>buffer = B, offset = q\<rparr> st
                                = Continue \<lparr>buffer = B, offset = q + length f\<rparr> st1"
        and st1: "save_buffer st1 = save_buffer st"
          "deliveries (calls st1) = deliveries (calls st) @ frame_events list f"
          "read_callback st1 = read_callback st"
        by blast
      from not_held have "\<not> length B - q < length f"
        by (simp add: frame_held_def)
      with inside have whole: "q + length f \<le> length B" by arith
      have "drop (q + length f) B = drop (length f) (drop q B)"
        by (simp add: add.commute)
      also have "\<dots> = drop (length f) (take (length B - q) (f @ concat fs))"
        by (simp only: prefix)
      also have "\<dots> = take (length B - q - length f) (drop (length f) (f @ concat fs))"
        by (rule drop_take)
      also have "\<dots> = take (length B - (q + length f)) (concat fs)"
        by simp
      finally have rest: "drop (q + length f) B = take (length B - (q + length f)) (concat fs)" .
      from Cons.prems(1) have valid: "\<forall>f \<in> set fs. frame_of list f \<noteq> None" by simp
      from Cons.IH [OF valid Cons.prems(2) whole rest, of st1]
      obtain st' j where loop: "receive_loop list \<lparr>buffer = B, offset = q + length f\<rparr> st1
                                  = Some (Inr st')"
        and j: "j \<le> length fs"
        and ev: "deliveries (calls st')
                   = deliveries (calls st1) @ concat (map (frame_events list) (take j fs))"
        and rc: "read_callback st' = read_callback st1"
        and le: "q + length f + length (concat (take j fs)) \<le> length B"
        and sb: "save_buffer st'
                   = (if q + length f + length (concat (take j fs)) = length B then None
                      else Some (drop (q + length f + length (concat (take j fs))) B))"
        and held: "j < length fs
                     \<longrightarrow> frame_held list (fs ! j)
                           (length B - (q + length f + length (concat (take j fs))))"
        by blast
      from head body loop have "receive_loop list \<lparr>buffer = B, offset = q\<rparr> st = Some (Inr st')"
        by (subst receive_loop.simps) simp
      with j ev rc le sb held st1 show ?thesis
        by (intro exI [of _ st'] exI [of _ "Suc j"]) (simp add: add.assoc)
    qed
  qed
qed


lemma receive_chunks_snoc:
  "receive_chunks list (bufs @ [buf]) st =
     (case receive_chunks list bufs st of
        None \<Rightarrow> None
      | Some (Inl e) \<Rightarrow> Some (Inl e)
      | Some (Inr st') \<Rightarrow> receive list buf st')"
proof (induction bufs arbitrary: st)
  case Nil
  show ?case by (simp split: option.split sum.split)
next
  case (Cons b bufs)
  then show ?case by (simp split: option.split sum.split)
qed

lemma concat_drop_frames: "concat (drop j fs) = drop (length (concat (take j fs))) (concat fs)"
proof -
  have "concat fs = concat (take j fs) @ concat (drop j fs)"
    by (metis append_take_drop_id concat_append)
  then show ?thesis by simp
qed

lemma receive_chunks_frames:
  assumes "\<forall>f \<in> set fs. frame_of list f \<noteq> None"
      and "constructors_local list"
      and "save_buffer st0 = None"
      and "read_callback st0 = None"
      and "concat bufs = take (length (concat bufs)) (concat fs)"
  shows "\<exists>st j. receive_chunks list bufs st0 = Some (Inr st)
           \<and> j \<le> length fs
           \<and> deliveries (calls st)
               = deliveries (calls st0) @ concat (map (frame_events list) (take j fs))
           \<and> read_callback st = None
           \<and> length (concat (take j fs)) \<le> length (concat bufs)
           \<and> save_buffer st
               = (if length (concat (take j fs)) = length (concat bufs) then None
                  else Some (drop (length (concat (take j fs))) (concat bufs)))
           \<and> (j < length fs
                \<longrightarrow> frame_held list (fs ! j)
                      (length (concat bufs) - length (concat (take j fs))))"
  using assms(5)
proof (induction bufs rule: rev_induct)
  case Nil
  from assms(3,4) show ?case
    by (intro exI [of _ st0] exI [of _ 0]) (simp add: frame_held_def)
next
  case (snoc buf bufs)
  let ?S = "concat fs"
  let ?n = "length (concat bufs)"
  define C where "C = concat (bufs @ [buf])"
  have C: "C = concat bufs @ buf" by (simp add: C_def)
  from snoc.prems have all: "C = take (length C) ?S" by (simp only: C_def)
  have nC: "?n \<le> length C" by (simp add: C)
  have "concat bufs = take ?n C" by (simp add: C)
  also have "\<dots> = take ?n (take (length C) ?S)" using all by simp
  also have "\<dots> = take ?n ?S" using nC by (simp add: min_absorb1)
  finally have before: "concat bufs = take ?n ?S" .
  from snoc.IH [OF before]
  obtain st j where run: "receive_chunks list bufs st0 = Some (Inr st)"
    and j: "j \<le> length fs"
    and ev: "deliveries (calls st)
               = deliveries (calls st0) @ concat (map (frame_events list) (take j fs))"
    and rc: "read_callback st = None"
    and le: "length (concat (take j fs)) \<le> ?n"
    and sb: "save_buffer st
               = (if length (concat (take j fs)) = ?n then None
                  else Some (drop (length (concat (take j fs))) (concat bufs)))"
    by blast
  let ?p = "length (concat (take j fs))"
  let ?B = "drop ?p C"
  from le sb have start: "receive_start buf st = (\<lparr>buffer = ?B, offset = 0\<rparr>, st)"
    by (simp add: receive_start_def rc BinaryReader_new_def C)
  have lenB: "length ?B = length C - ?p" by simp
  have "?B = drop ?p (take (length C) ?S)" using all by simp
  also have "\<dots> = take (length C - ?p) (drop ?p ?S)" by (rule drop_take)
  also have "\<dots> = take (length ?B - 0) (concat (drop j fs))"
    by (simp only: concat_drop_frames [symmetric] lenB diff_zero)
  finally have "?B = take (length ?B - 0) (concat (drop j fs))" .
  then have prefix: "drop 0 ?B = take (length ?B - 0) (concat (drop j fs))"
    unfolding drop_0 .
  from assms(1) have valid: "\<forall>f \<in> set (drop j fs). frame_of list f \<noteq> None"
    by (auto dest: in_set_dropD)
  from receive_loop_frames [OF valid assms(2) _ prefix, of st]
  obtain st' k where loop: "receive_loop list \<lparr>buffer = ?B, offset = 0\<rparr> st = Some (Inr st')"
    and k: "k \<le> length (drop j fs)"
    and ev': "deliveries (calls st')
                = deliveries (calls st) @ concat (map (frame_events list) (take k (drop j fs)))"
    and rc': "read_callback st' = read_callback st"
    and le': "0 + length (concat (take k (drop j fs))) \<le> length ?B"
    and sb': "save_buffer st'
                = (if 0 + length (concat (take k (drop j fs))) = length ?B then None
                   else Some (drop (0 + length (concat (take k (drop j fs)))) ?B))"
    and held': "k < length (drop j fs)
                  \<longrightarrow> frame_held list (drop j fs ! k)
                        (length ?B - (0 + length (concat (take k (drop j fs)))))"
    by auto
  have split: "take (j + k) fs = take j fs @ take k (drop j fs)"
    by (rule take_add)
  let ?p' = "length (concat (take k (drop j fs)))"
  have total: "length (concat (take (j + k) fs)) = ?p + ?p'"
    by (simp only: split concat_append length_append)
  from le nC have pn: "?p \<le> length C" by simp
  have "receive_chunks list (bufs @ [buf]) st0 = Some (Inr st')"
    by (simp add: receive_chunks_snoc run receive_def start loop)
  moreover from j k have "j + k \<le> length fs" by simp
  moreover from ev ev' have "deliveries (calls st')
      = deliveries (calls st0) @ concat (map (frame_events list) (take (j + k) fs))"
    by (simp add: split)
  moreover from rc rc' have "read_callback st' = None" by simp
  moreover from le' pn have "length (concat (take (j + k) fs)) \<le> length C"
    unfolding total lenB by arith
  moreover have "save_buffer st'
      = (if length (concat (take (j + k) fs)) = length C then None
         else Some (drop (length (concat (take (j + k) fs))) C))"
  proof -
    from le' pn have "(?p' = length ?B) = (?p + ?p' = length C)" unfolding lenB by arith
    moreover have "drop ?p' ?B = drop (?p + ?p') C"
      by (simp add: add.commute)
    ultimately show ?thesis unfolding total using sb' by simp
  qed
  moreover have "j + k < length fs
      \<longrightarrow> frame_held list (fs ! (j + k)) (length C - length (concat (take (j + k) fs)))"
  proof
    assume less: "j + k < length fs"
    then have "k < length (drop j fs)" by simp
    with held' have "frame_held list (drop j fs ! k) (length ?B - ?p')" by simp
    moreover from less have "drop j fs ! k = fs ! (j + k)" by simp
    moreover have "length ?B - ?p' = length C - (?p + ?p')" unfolding lenB by arith
    ultimately show "frame_held list (fs ! (j + k)) (length C - length (concat (take (j + k) fs)))"
      unfolding total by simp
  qed
  ultimately show ?case unfolding C_def by blast
qed


text \<open>
  Chunk-split invariance, up to the last frame: if the stream is a sequence of well-formed
  frames of registered packets whose last frame is longer than its header, then however the
  stream is cut into chunks, the \<open>receive\<close> calls return, deliver exactly the frames' typed
  values in order (each logged, and handed to its handler when one is bound), and leave no
  carry-over.
\<close>

theorem receive_chunks_delivers_frames:
  assumes "\<forall>f \<in> set fs. frame_of list f \<noteq> None"
      and "constructors_local list"
      and "save_buffer st0 = None"
      and "read_callback st0 = None"
      and "concat bufs = concat fs"
      and "fs = [] \<or> carries_payload list (last fs)"
  shows "\<exists>st. receive_chunks list bufs st0 = Some (Inr st)
           \<and> deliveries (calls st)
               = deliveries (calls st0) @ concat (map (frame_events list) fs)
           \<and> save_buffer st = None"
proof -
  let ?n = "length (concat fs)"
  from assms(5) have "concat bufs = take (length (concat bufs)) (concat fs)" by simp
  from receive_chunks_frames [OF assms(1-4) this]
  obtain st j where run: "receive_chunks list bufs st0 = Some (Inr st)"
    and j: "j \<le> length fs"
    and ev: "deliveries (calls st)
               = deliveries (calls st0) @ concat (map (frame_events list) (take j fs))"
    and sb: "save_buffer st
               = (if length (concat (take j fs)) = ?n then None
                  else Some (drop (length (concat (take j fs))) (concat bufs)))"
    and held: "j < length fs
                 \<longrightarrow> frame_held list (fs ! j) (?n - length (concat (take j fs)))"
    unfolding assms(5) by blast
  have "j = length fs"
  proof (rule ccontr)
    assume "j \<noteq> length fs"
    with j have less: "j < length fs" by simp
    let ?f = "fs ! j"
    let ?rest = "drop (Suc j) fs"
    from less have mem: "?f \<in> set fs" by simp
    with assms(1) obtain p where p: "frame_of list ?f = Some p" by auto
    note fr = frame_of_Some [OF p]
    from less have "drop j fs = ?f # ?rest" by (simp add: Cons_nth_drop_Suc)
    then have "concat (drop j fs) = ?f @ concat ?rest" by simp
    then have "length (concat (drop j fs)) = length ?f + length (concat ?rest)" by simp
    moreover have "length (concat (drop j fs)) = ?n - length (concat (take j fs))"
      by (simp add: concat_drop_frames)
    ultimately have m: "?n - length (concat (take j fs)) = length ?f + length (concat ?rest)"
      by simp
    define r where "r = length (concat ?rest)"
    from held less have "frame_held list ?f (length ?f + r)"
      by (simp add: m r_def)
    then have "header_size p = length ?f \<and> r = 0"
      using fr(1,3) by (auto simp: frame_held_def p header_size_def split: if_splits)
    then have exact: "header_size p = length ?f" and none: "concat ?rest = []"
      by (simp_all add: r_def)
    have "?rest = []"
    proof (rule ccontr)
      assume "?rest \<noteq> []"
      then obtain g where g: "g \<in> set ?rest" by (cases ?rest) auto
      then have "g \<in> set fs" by (rule in_set_dropD)
      with assms(1) obtain pg where "frame_of list g = Some pg" by auto
      from frame_of_Some(1) [OF this] have "g \<noteq> []" by auto
      with none g show False by simp
    qed
    with less have "j = length fs - 1" by simp
    moreover from less have "fs \<noteq> []" by auto
    ultimately have "last fs = ?f" by (simp add: last_conv_nth)
    with assms(6) less have "carries_payload list ?f" by auto
    with exact p show False by (simp add: carries_payload_def)
  qed
  with run ev sb show ?thesis by simp
qed

text \<open>The theorem at work on the example registry: an identifier-only frame, then a variable one.\<close>

lemma example_list_cases:
  "example_list pid = Some p \<Longrightarrow>
     s_parse (p_struct p) = (\<lambda>b pos e. (take (e - pos) (drop pos b), e))"
  by (auto simp: example_list_def registry_defs split: if_splits)

lemma example_list_local: "constructors_local example_list"
  unfolding constructors_local_def by (auto dest!: example_list_cases)

lemma example_list_007d: "map_option (\<lambda>p. (p_size p, p_callback p)) (example_list 0x7d) = Some (2, Some ''on7d'')"
  by (simp add: example_list_def registry_defs)

lemma example_list_0abc: "map_option (\<lambda>p. (p_size p, p_callback p)) (example_list 0xabc) = Some (-1, Some ''onAbc'')"
  by (simp add: example_list_def registry_defs)

lemma example_stream_delivered:
  "\<exists>st. receive_chunks example_list [[0x7d], [0, 0xbc, 0x0a, 6], [0, 1, 2]] fresh_receiver
            = Some (Inr st)
         \<and> deliveries (calls st)
             = [ConsoleRecv [], Callback ''on7d'' [], ConsoleRecv [1, 2], Callback ''onAbc'' [1, 2]]
         \<and> save_buffer st = None"
proof -
  let ?fs = "[[0x7d, 0], [0xbc, 0x0a, 6, 0, 1, 2]] :: byte list list"
  have f1: "frame_of example_list [0x7d, 0] = example_list 0x7d"
    using example_list_007d by (auto simp: frame_of_def ushort_at_def)
  have f2: "frame_of example_list [0xbc, 0x0a, 6, 0, 1, 2] = example_list 0xabc"
    using example_list_0abc by (auto simp: frame_of_def ushort_at_def)
  have valid: "\<forall>f \<in> set ?fs. frame_of example_list f \<noteq> None"
    using example_list_007d example_list_0abc by (auto simp: f1 f2)
  have last: "?fs = [] \<or> carries_payload example_list (last ?fs)"
    using example_list_0abc by (auto simp: carries_payload_def f2 header_size_def)
  have ev: "concat (map (frame_events example_list) ?fs)
      = [ConsoleRecv [], Callback ''on7d'' [], ConsoleRecv [1, 2], Callback ''onAbc'' [1, 2]]"
    by (simp add: frame_events_def frame_of_def ushort_at_def header_size_def example_list_def
        registry_defs Let_def)
  have fresh: "save_buffer fresh_receiver = None" "read_callback fresh_receiver = None"
    "deliveries (calls fresh_receiver) = []"
    by (simp_all add: fresh_receiver_def deliveries_def)
  have same: "concat [[0x7d], [0, 0xbc, 0x0a, 6], [0, 1, 2]] = concat ?fs" by simp
  from receive_chunks_delivers_frames [OF valid example_list_local fresh(1,2) same last]
  obtain st where "receive_chunks example_list [[0x7d], [0, 0xbc, 0x0a, 6], [0, 1, 2]] fresh_receiver
                     = Some (Inr st)"
    and "deliveries (calls st)
           = deliveries (calls fresh_receiver) @ concat (map (frame_events example_list) ?fs)"
    and "save_buffer st = None"
    by blast
  then show ?thesis unfolding ev fresh(3) by simp
qed

text \<open>
  Claim C1 at its failing input.  The stream is the single valid frame \<open>0x007d\<close> (fixed size 2,
  handler bound), a frame that is no longer than its header.  Delivered whole, split into two
  chunks, or followed by an empty chunk, the frame is never handed to its handler: it stays in
  the carry-over.
\<close>

theorem receive_chunks_last_frame_held:
  "map_option (\<lambda>p. (p_size p, p_callback p)) (example_list 0x7d) = Some (2, Some ''on7d'')
   \<and> observed (receive_chunks example_list [[0x7d, 0]] fresh_receiver)
       = Some (Inr (Some [0x7d, 0], []))
   \<and> observed (receive_chunks example_list [[0x7d], [0]] fresh_receiver)
       = Some (Inr (Some [0x7d, 0], []))
   \<and> observed (receive_chunks example_list [[0x7d, 0], []] fresh_receiver)
       = Some (Inr (Some [0x7d, 0], []))"
  by code_simp

text \<open>
  Claim C4 at its failing inputs.  With exactly two bytes in the buffer the identifier is not
  read: both bytes go to the carry-over and nothing is parsed, although they are the whole
  frame \<open>0x007d\<close>.  With exactly four bytes of the variable-size frame \<open>0x0abc\<close> the length field
  is not read: the four bytes, a whole frame of declared length 4, go to the carry-over.  One
  more byte in the buffer and either frame is parsed and dispatched.
\<close>

theorem receive_body_exact_header_held:
  "(case receive_body example_list (BinaryReader_new [0x7d, 0]) fresh_receiver of
      Return st \<Rightarrow> save_buffer st = Some [0x7d, 0] \<and> calls st = []
    | _ \<Rightarrow> False)
   \<and> (case receive_body example_list (BinaryReader_new [0xbc, 0x0a, 4, 0]) fresh_receiver of
      Return st \<Rightarrow> save_buffer st = Some [0xbc, 0x0a, 4, 0] \<and> calls st = []
    | _ \<Rightarrow> False)
   \<and> observed (receive example_list [0x7d, 0, 0] fresh_receiver)
       = Some (Inr (Some [0], [ConsoleRecv [], Callback ''on7d'' []]))
   \<and> observed (receive example_list [0xbc, 0x0a, 4, 0, 0x7d] fresh_receiver)
       = Some (Inr (Some [0x7d], [ConsoleRecv [], Callback ''onAbc'' []]))"
  by code_simp

text \<open>
  Claim C6, as the code has it.  The guess hook comes before the completeness check.  Once the
  identifier is read and the frame's length is known (the definition's fixed size, or the
  length field read), a bound guess hook is called with that length if the version range is
  still open, and only then is the frame's end compared with the buffer.  If the frame ends
  beyond the buffer it is saved from its first byte as carry-over, with the hook already
  called and \<open>PACKETVER\<close> changed, and nothing is parsed; otherwise it is parsed and delivered
  in the state the hook left.
\<close>

theorem guess_before_incomplete_check:
  assumes "tell fp + 2 < flength fp"
      and "readUShort fp = Some (pid, fp1)"
      and "list pid = Some packet"
      and "if p_size packet < 0
           then tell fp + 4 < flength fp \<and> readUShort fp1 = Some (len, fp2)
           else len = nat (p_size packet)"
  shows "receive_body list fp st =
           (let st1 = (case p_guess packet of
                         None \<Rightarrow> st
                       | Some guess \<Rightarrow>
                           if pv_min (PACKETVER st) \<noteq> pv_max (PACKETVER st)
                           then st\<lparr>PACKETVER := guess len (PACKETVER st),
                                   calls := calls st @ [GuessHook pid len]\<rparr>
                           else st)
            in if flength fp < tell fp + len
               then Return (st1\<lparr>save_buffer := Some (drop (tell fp) (buffer fp))\<rparr>)
               else (case s_parse (p_struct packet) (buffer fp)
                            (tell fp + (if p_size packet < 0 then 4 else 2)) (tell fp + len) of
                       (data, pos) \<Rightarrow>
                         Continue (fp\<lparr>offset := (if len \<noteq> 0 then tell fp + len else pos)\<rparr>)
                           (st1\<lparr>calls := calls st1 @ ConsoleRecv data #
                                   (case p_callback packet of
                                      None \<Rightarrow> []
                                    | Some callback \<Rightarrow> [Callback callback data])\<rparr>)))"
proof -
  from assms(2) have fp1: "fp1 = fp\<lparr>offset := tell fp + 2\<rparr>" by (rule readUShort_tell)
  show ?thesis
  proof (cases "p_size packet < 0")
    case True
    with assms(4) have more: "tell fp + 4 < flength fp" and len: "readUShort fp1 = Some (len, fp2)"
      by simp_all
    from len have fp2: "fp2 = fp\<lparr>offset := tell fp + 4\<rparr>"
      by (auto dest!: readUShort_tell simp: fp1 tell_def)
    from assms(1-3) True more len show ?thesis
      by (simp add: receive_body_def receive_frame_def fp1 fp2 tell_def flength_def seek_set_def
          Uint8Array_view_def Let_def split: option.split prod.split)
  next
    case False
    with assms(4) have len: "len = nat (p_size packet)" by simp
    from assms(1-3) False show ?thesis
      by (simp add: receive_body_def receive_frame_def fp1 len tell_def flength_def seek_set_def
          Uint8Array_view_def Let_def split: option.split prod.split)
  qed
qed

theorem guess_before_incomplete_check_witness:
  "receive_body guess_list (BinaryReader_new short_0064) fresh_receiver =
     Return (fresh_receiver\<lparr>PACKETVER := \<lparr>pv_min = 20120101, pv_max = 20120101\<rparr>,
                           calls := [GuessHook 0x64 26],
                           save_buffer := Some short_0064\<rparr>)
   \<and> receive_body guess_list (BinaryReader_new whole_0064) fresh_receiver =
     Continue \<lparr>buffer = whole_0064, offset = 26\<rparr>
       (fresh_receiver\<lparr>PACKETVER := \<lparr>pv_min = 20120101, pv_max = 20120101\<rparr>,
                       calls := [GuessHook 0x64 26,
                                 ConsoleRecv [1, 2, 3, 4, 5, 6, 7, 8, 9, 10, 11, 12, 13, 14, 15,
                                              16, 17, 18, 19, 20, 21, 22, 23, 24],
                                 Callback ''on64'' [1, 2, 3, 4, 5, 6, 7, 8, 9, 10, 11, 12, 13, 14,
                                                   15, 16, 17, 18, 19, 20, 21, 22, 23, 24]]\<rparr>)"
proof -
  let ?fp = "BinaryReader_new short_0064"
  let ?gp = "BinaryReader_new whole_0064"
  have room: "tell ?fp + 2 < flength ?fp" "tell ?gp + 2 < flength ?gp"
    by (simp_all add: BinaryReader_new_def short_0064_def whole_0064_def tell_def flength_def)
  have ident: "readUShort ?fp = Some (0x64, ?fp\<lparr>offset := 2\<rparr>)"
    "readUShort ?gp = Some (0x64, ?gp\<lparr>offset := 2\<rparr>)"
    by (simp_all add: readUShort_def BinaryReader_new_def short_0064_def whole_0064_def)
  have len: "if p_size guessed_packet < 0
             then tell ?fp + 4 < flength ?fp \<and> readUShort (?fp\<lparr>offset := 2\<rparr>) = Some (26, ?fp)
             else 26 = nat (p_size guessed_packet)"
    "if p_size guessed_packet < 0
     then tell ?gp + 4 < flength ?gp \<and> readUShort (?gp\<lparr>offset := 2\<rparr>) = Some (26, ?gp)
     else 26 = nat (p_size guessed_packet)"
    by (simp_all add: guessed_packet_def)
  have short: "receive_body guess_list ?fp fresh_receiver =
     Return (fresh_receiver\<lparr>PACKETVER := \<lparr>pv_min = 20120101, pv_max = 20120101\<rparr>,
                           calls := [GuessHook 0x64 26],
                           save_buffer := Some short_0064\<rparr>)"
    using guess_before_incomplete_check
            [where list = guess_list and pid = "0x64" and fp = ?fp and st = fresh_receiver,
             OF room(1) ident(1) guess_list_0064 len(1)]
    by (simp add: guessed_packet_def short_0064_def narrow_on_26_def fresh_receiver_def
        BinaryReader_new_def tell_def flength_def Let_def)
  have whole: "receive_body guess_list ?gp fresh_receiver =
     Continue \<lparr>buffer = whole_0064, offset = 26\<rparr>
       (fresh_receiver\<lparr>PACKETVER := \<lparr>pv_min = 20120101, pv_max = 20120101\<rparr>,
                       calls := [GuessHook 0x64 26,
                                 ConsoleRecv [1, 2, 3, 4, 5, 6, 7, 8, 9, 10, 11, 12, 13, 14, 15,
                                              16, 17, 18, 19, 20, 21, 22, 23, 24],
                                 Callback ''on64'' [1, 2, 3, 4, 5, 6, 7, 8, 9, 10, 11, 12, 13, 14,
                                                   15, 16, 17, 18, 19, 20, 21, 22, 23, 24]]\<rparr>)"
    using guess_before_incomplete_check
            [where list = guess_list and pid = "0x64" and fp = ?gp and st = fresh_receiver,
             OF room(2) ident(2) guess_list_0064 len(2)]
    by (simp add: guessed_packet_def packet_0064_def payload_struct_def whole_0064_def
        narrow_on_26_def fresh_receiver_def BinaryReader_new_def tell_def flength_def Let_def)
  from short whole show ?thesis by simp
qed

text \<open>
  Claim C6 as stated fails: ten bytes of the 26-byte frame \<open>0x0064\<close> arrive, the version range
  is open and the packet has a guess hook.  The frame is saved as carry-over, and in the same
  call the hook has been invoked with the length 26 and has closed the version range.
\<close>

theorem guess_on_incomplete_frame_counterexample:
  "observed (receive guess_list [0x64, 0, 1, 2, 3, 4, 5, 6, 7, 8] fresh_receiver)
     = Some (Inr (Some [0x64, 0, 1, 2, 3, 4, 5, 6, 7, 8], [GuessHook 0x64 26]))
   \<and> map_option (map_sum (\<lambda>e. e) (\<lambda>st. (pv_min (PACKETVER st), pv_max (PACKETVER st))))
        (receive guess_list [0x64, 0, 1, 2, 3, 4, 5, 6, 7, 8] fresh_receiver)
     = Some (Inr (20120101, 20120101))"
  by code_simp

text \<open>
  Claim C7.  Whenever a run of \<open>receive\<close> comes to the head of the loop with more than two
  bytes left and the identifier read there is not in the registry, the call returns at once:
  its events are those made before the identifier was read followed by the console error
  alone, so no handler is called for anything at or after the unknown identifier, and
  \<open>_save_buffer\<close> is \<open>null\<close>, so none of the remaining bytes are kept.
\<close>

theorem unknown_id_stops:
  assumes "loop_reaches list (receive_start buf st0) (fp, st)"
      and "tell fp + 2 < flength fp"
      and "readUShort fp = Some (pid, fp1)"
      and "list pid = None"
  shows "receive list buf st0 =
           Some (Inr (st\<lparr>calls := calls st @ [ConsoleNotRegister pid (flength fp - (tell fp + 2))],
                        save_buffer := None\<rparr>))"
proof -
  from assms(3) have fp1: "fp1 = fp\<lparr>offset := tell fp + 2\<rparr>" by (rule readUShort_tell)
  have "receive_body list fp st =
          Break (st\<lparr>calls := calls st @ [ConsoleNotRegister pid (flength fp - (tell fp + 2))]\<rparr>)"
    using assms(2-4) by (simp add: receive_body_def fp1 tell_def flength_def)
  moreover have "tell fp < flength fp" using assms(2) by simp
  ultimately have "receive_loop list fp st =
      Some (Inr (st\<lparr>calls := calls st @ [ConsoleNotRegister pid (flength fp - (tell fp + 2))],
                   save_buffer := None\<rparr>))"
    by (subst receive_loop.simps) simp
  with loop_reaches_result [OF assms(1)] show ?thesis
    by (cases "receive_start buf st0") (simp add: receive_def)
qed

theorem unknown_id_stops_witness:
  "receive example_list unknown_9999 fresh_receiver =
     Some (Inr (fresh_receiver\<lparr>calls := [ConsoleRecv [], Callback ''on7d'' [],
                                         ConsoleNotRegister 0x9999 10],
                               save_buffer := None\<rparr>))"
proof -
  let ?fp = "BinaryReader_new unknown_9999"
  let ?st = "fresh_receiver\<lparr>calls := [ConsoleRecv [], Callback ''on7d'' []]\<rparr>"
  have start: "receive_start unknown_9999 fresh_receiver = (?fp, fresh_receiver)"
    by (simp add: receive_start_def fresh_receiver_def)
  have first: "receive_body example_list ?fp fresh_receiver = Continue (?fp\<lparr>offset := 2\<rparr>) ?st"
    by (simp add: receive_body_def receive_frame_def readUShort_def BinaryReader_new_def
        unknown_9999_def tell_def flength_def seek_set_def example_list_def registry_defs
        fresh_receiver_def Let_def)
  have head: "tell ?fp < flength ?fp"
    by (simp add: BinaryReader_new_def unknown_9999_def tell_def flength_def)
  have reach: "loop_reaches example_list (receive_start unknown_9999 fresh_receiver)
                 (?fp\<lparr>offset := 2\<rparr>, ?st)"
    unfolding start by (rule loop_reaches.pass [OF head first loop_reaches.here])
  have room: "tell (?fp\<lparr>offset := 2\<rparr>) + 2 < flength (?fp\<lparr>offset := 2\<rparr>)"
    by (simp add: BinaryReader_new_def unknown_9999_def tell_def flength_def)
  have ident: "readUShort (?fp\<lparr>offset := 2\<rparr>) = Some (0x9999, ?fp\<lparr>offset := 4\<rparr>)"
    by (simp add: readUShort_def BinaryReader_new_def unknown_9999_def)
  from unknown_id_stops
         [where list = example_list and pid = "0x9999" and buf = unknown_9999
            and ?st0.0 = fresh_receiver and fp = "?fp\<lparr>offset := 2\<rparr>" and st = ?st
            and ?fp1.0 = "?fp\<lparr>offset := 4\<rparr>",
          OF reach room ident example_list_9999]
  show ?thesis
    by (simp add: BinaryReader_new_def unknown_9999_def tell_def flength_def)
qed

text \<open>
  Claim C8, as the code has it.  For a variable-size frame of which more than four bytes are in
  the buffer, with declared length \<open>len\<close> and its end inside the buffer: if \<open>len\<close> is not 0 the
  body ends with the cursor exactly \<open>len\<close> bytes after the first byte of the identifier,
  whatever the struct constructor did with the cursor; if \<open>len\<close> is 0 the cursor is not moved
  after the constructor and stays where the constructor (called with the cursor behind the
  4-byte header) left it.
\<close>

theorem variable_frame_cursor:
  assumes "tell fp + 4 < flength fp"
      and "readUShort fp = Some (pid, fp1)"
      and "list pid = Some packet"
      and "p_size packet < 0"
      and "readUShort fp1 = Some (len, fp2)"
      and "tell fp + len \<le> flength fp"
  shows "\<exists>st'. receive_body list fp st =
           Continue (fp\<lparr>offset :=
                        (if len \<noteq> 0 then tell fp + len
                         else snd (s_parse (p_struct packet) (buffer fp) (tell fp + 4) (tell fp)))\<rparr>)
                    st'"
proof -
  from assms(2) have fp1: "fp1 = fp\<lparr>offset := tell fp + 2\<rparr>" by (rule readUShort_tell)
  from assms(5) have fp2: "fp2 = fp\<lparr>offset := tell fp + 4\<rparr>"
    by (auto dest!: readUShort_tell simp: fp1 tell_def)
  from assms show ?thesis
    by (simp add: receive_body_def receive_frame_def fp1 fp2 tell_def flength_def seek_set_def
        Let_def split: prod.split)
qed

theorem variable_frame_cursor_witness:
  "\<exists>st'. receive_body idle_list (BinaryReader_new frame_0abc) fresh_receiver =
     Continue \<lparr>buffer = frame_0abc, offset = 8\<rparr> st'"
proof -
  let ?fp = "BinaryReader_new frame_0abc"
  have room: "tell ?fp + 4 < flength ?fp"
    by (simp add: BinaryReader_new_def frame_0abc_def tell_def flength_def)
  have ident: "readUShort ?fp = Some (0xabc, ?fp\<lparr>offset := 2\<rparr>)"
    by (simp add: readUShort_def BinaryReader_new_def frame_0abc_def)
  have variable: "p_size idle_packet < 0"
    by (simp add: idle_packet_def)
  have len: "readUShort (?fp\<lparr>offset := 2\<rparr>) = Some (8, ?fp\<lparr>offset := 4\<rparr>)"
    by (simp add: readUShort_def BinaryReader_new_def frame_0abc_def)
  have inside: "tell ?fp + 8 \<le> flength ?fp"
    by (simp add: BinaryReader_new_def frame_0abc_def tell_def flength_def)
  from variable_frame_cursor
         [where list = idle_list and pid = "0xabc" and fp = ?fp and st = fresh_receiver,
          OF room ident idle_list_0abc variable len inside]
  show ?thesis
    by (simp add: BinaryReader_new_def tell_def)
qed

text \<open>
  Claim C8 as stated fails for the declared length 0: the frame \<open>0x0abc\<close> with length field 0
  lies at offset 0, its constructor reads nothing, and the body ends with the cursor at 4, not
  at 0; the handler has been called.
\<close>

theorem zero_length_frame_counterexample:
  "(case receive_body idle_list (BinaryReader_new zero_0abc) fresh_receiver of
      Continue fp st \<Rightarrow> tell fp = 4 \<and> tell fp \<noteq> 0 + 0
                         \<and> calls st = [ConsoleRecv [], Callback ''onAbc'' []]
    | _ \<Rightarrow> False)"
  by code_simp

end
